theory Spec2Isabelle
  imports Main "HOL-Library.Word"
begin

section \<open>The CoreAudio output of scream: data model\<close>

text \<open>
  Shallow embedding of \<^verbatim>\<open>Receivers/unix/coreaudio.c\<close>. The file keeps one global
  record \<^verbatim>\<open>ca_data\<close> holding a byte array of \<^verbatim>\<open>SRC_BUF_SIZE\<close> bytes and two
  \<^verbatim>\<open>unsigned int\<close> cursors. The capacity is a macro in the source (35280); here it
  is the first parameter of every operation, so that the same code can be run at the
  small capacities the specification uses in its examples.
\<close>

type_synonym byte = "8 word"
type_synonym uint = "32 word"

text \<open>A \<^verbatim>\<open>memcpy\<close> or \<^verbatim>\<open>memset\<close> that leaves its array is undefined behaviour in C;
  the model reports it.\<close>

datatype fault = Out_Of_Bounds

text \<open>The fields of \<^verbatim>\<open>struct coreaudio_output_data\<close> that the buffer logic uses
  (the stream format and the queue handles belong to the AudioToolbox interface).\<close>

record coreaudio_output_data =
  source_buffer :: "byte list"
  source_buffer_start :: uint
  source_buffer_end :: uint

text \<open>The fields of an \<^verbatim>\<open>AudioQueueBuffer\<close> that the callback reads and writes.\<close>

record AudioQueueBuffer =
  mAudioDataBytesCapacity :: uint
  mAudioData :: "byte list"
  mAudioDataByteSize :: uint

text \<open>The fields of \<^verbatim>\<open>receiver_data_t\<close> that \<^verbatim>\<open>coreaudio_output_send\<close> reads. The
  declaration is in a header outside this file; \<^verbatim>\<open>audio_size\<close> is taken as a 32-bit
  value (the loop converts it to \<^verbatim>\<open>unsigned int\<close> in every expression it occurs in).\<close>

record receiver_data_t =
  audio_size :: uint
  audio :: "byte list"

section \<open>Memory primitives\<close>

text \<open>\<^verbatim>\<open>memcpy(dst + doff, src + soff, n)\<close>.\<close>

definition memcpy :: "byte list \<Rightarrow> nat \<Rightarrow> byte list \<Rightarrow> nat \<Rightarrow> nat \<Rightarrow> fault + byte list" where
  "memcpy dst doff src soff n =
     (if doff + n \<le> length dst \<and> soff + n \<le> length src
      then Inr (take doff dst @ take n (drop soff src) @ drop (doff + n) dst)
      else Inl Out_Of_Bounds)"

text \<open>\<^verbatim>\<open>memset(dst + doff, c, n)\<close>.\<close>

definition memset :: "byte list \<Rightarrow> nat \<Rightarrow> byte \<Rightarrow> nat \<Rightarrow> fault + byte list" where
  "memset dst doff c n =
     (if doff + n \<le> length dst
      then Inr (take doff dst @ replicate n c @ drop (doff + n) dst)
      else Inl Out_Of_Bounds)"

text \<open>Sequencing of steps that may fault.\<close>

definition and_then :: "fault + 'a \<Rightarrow> ('a \<Rightarrow> fault + 'b) \<Rightarrow> fault + 'b" where
  "and_then r f = (case r of Inl e \<Rightarrow> Inl e | Inr x \<Rightarrow> f x)"

section \<open>The output callback\<close>

text \<open>
  The verbose branch of the source computes the number of bytes it believes are in the
  buffer (lines 32-33, 87-88, 149-150); it only prints it.
\<close>

definition data_in_buffer :: "uint \<Rightarrow> coreaudio_output_data \<Rightarrow> uint" where
  "data_in_buffer SRC_BUF_SIZE ca_data =
     (let d = SRC_BUF_SIZE + source_buffer_end ca_data - source_buffer_start ca_data
      in if d \<ge> SRC_BUF_SIZE then d - SRC_BUF_SIZE else d)"

text \<open>
  The callback's local state: the block being filled, the global record, and the two
  counters \<^verbatim>\<open>copied_size\<close> and \<^verbatim>\<open>wanted_size\<close>.
\<close>

type_synonym frame = "AudioQueueBuffer \<times> coreaudio_output_data \<times> uint \<times> uint"

text \<open>
  The body shared by "Part 1" and "Part 2" (the source repeats it, with a TODO to remove
  the duplication): copy up to \<^verbatim>\<open>wanted_size\<close> bytes from the read cursor up to
  \<^verbatim>\<open>buffer_end\<close>.
\<close>

definition copy_span :: "uint \<Rightarrow> frame \<Rightarrow> fault + frame" where
  "copy_span buffer_end fr =
     (case fr of (buffer, ca_data, copied_size, wanted_size) \<Rightarrow>
        let available_size = buffer_end - source_buffer_start ca_data;
            copy_size = (if available_size > wanted_size then wanted_size else available_size)
        in and_then
             (memcpy (mAudioData buffer) (unat copied_size)
                     (source_buffer ca_data) (unat (source_buffer_start ca_data)) (unat copy_size))
             (\<lambda>d. Inr (buffer\<lparr>mAudioData := d\<rparr>,
                       ca_data\<lparr>source_buffer_start := source_buffer_start ca_data + copy_size\<rparr>,
                       copied_size + copy_size,
                       wanted_size - copy_size)))"

text \<open>Part 1: from the current position to the end of the data or of the storage.\<close>

definition callback_part1 :: "uint \<Rightarrow> frame \<Rightarrow> fault + frame" where
  "callback_part1 SRC_BUF_SIZE fr =
     (case fr of (buffer, ca_data, copied_size, wanted_size) \<Rightarrow>
        let buffer_end = (if source_buffer_start ca_data < source_buffer_end ca_data
                          then source_buffer_end ca_data else SRC_BUF_SIZE)
        in copy_span buffer_end fr)"

text \<open>Lines 55-61: wrap the read position at the end of the ring.\<close>

definition callback_wrap :: "uint \<Rightarrow> coreaudio_output_data \<Rightarrow> coreaudio_output_data" where
  "callback_wrap SRC_BUF_SIZE ca_data =
     (if source_buffer_start ca_data = SRC_BUF_SIZE
      then (let ca1 = ca_data\<lparr>source_buffer_start := 0\<rparr>
            in if source_buffer_end ca1 = SRC_BUF_SIZE
               then ca1\<lparr>source_buffer_end := 0\<rparr> else ca1)
      else ca_data)"

text \<open>Part 2: from the beginning of the storage, if more is wanted and there is data.\<close>

definition callback_part2 :: "frame \<Rightarrow> fault + frame" where
  "callback_part2 fr =
     (case fr of (buffer, ca_data, copied_size, wanted_size) \<Rightarrow>
        if wanted_size > 0 \<and> source_buffer_start ca_data < source_buffer_end ca_data
        then copy_span (source_buffer_end ca_data) fr
        else Inr fr)"

text \<open>Lines 78-83: fill the gap with silence and mark the whole block as valid.\<close>

definition callback_fill :: "frame \<Rightarrow> fault + (AudioQueueBuffer \<times> coreaudio_output_data)" where
  "callback_fill fr =
     (case fr of (buffer, ca_data, copied_size, wanted_size) \<Rightarrow>
        and_then
          (if wanted_size > 0
           then memset (mAudioData buffer) (unat copied_size) 0 (unat wanted_size)
           else Inr (mAudioData buffer))
          (\<lambda>d. Inr (buffer\<lparr>mAudioData := d,
                           mAudioDataByteSize := mAudioDataBytesCapacity buffer\<rparr>,
                     ca_data)))"

text \<open>
  \<^verbatim>\<open>audio_queue_output_callback\<close>. The result is the block handed to
  \<^verbatim>\<open>AudioQueueEnqueueBuffer\<close> and the updated global record.
\<close>

definition audio_queue_output_callback ::
    "uint \<Rightarrow> AudioQueueBuffer \<Rightarrow> coreaudio_output_data
       \<Rightarrow> fault + (AudioQueueBuffer \<times> coreaudio_output_data)" where
  "audio_queue_output_callback SRC_BUF_SIZE buffer ca_data =
     and_then (callback_part1 SRC_BUF_SIZE (buffer, ca_data, 0, mAudioDataBytesCapacity buffer))
       (\<lambda>fr1. case fr1 of (buffer1, ca1, copied1, wanted1) \<Rightarrow>
          and_then (callback_part2 (buffer1, callback_wrap SRC_BUF_SIZE ca1, copied1, wanted1))
            callback_fill)"

section \<open>The producer\<close>

text \<open>
  The \<^verbatim>\<open>while\<close> loop of \<^verbatim>\<open>coreaudio_output_send\<close>. It does not return when an
  iteration copies nothing, so it is a partial function: \<open>None\<close> is "does not return".
  The list \<open>segs\<close> is not in the source: it records the \<^verbatim>\<open>copy_size\<close> of each
  iteration, in order, and nothing in the loop reads it.
\<close>

partial_function (option) send_loop ::
    "uint \<Rightarrow> receiver_data_t \<Rightarrow> uint \<Rightarrow> nat list \<Rightarrow> coreaudio_output_data
       \<Rightarrow> (fault + (nat list \<times> coreaudio_output_data)) option" where
  "send_loop SRC_BUF_SIZE data copied_size segs ca_data =
     (if audio_size data - copied_size > 0 then
        (let ca1 = (if source_buffer_end ca_data = SRC_BUF_SIZE
                    then ca_data\<lparr>source_buffer_end := 0\<rparr> else ca_data);
             left_size = audio_size data - copied_size;
             buffer_available = SRC_BUF_SIZE - source_buffer_end ca1;
             copy_size = (if left_size < buffer_available then left_size else buffer_available);
             r = memcpy (source_buffer ca1) (unat (source_buffer_end ca1))
                        (audio data) (unat copied_size) (unat copy_size)
         in if isl r then Some (Inl (projl r))
            else send_loop SRC_BUF_SIZE data (copied_size + copy_size) (segs @ [unat copy_size])
                   (ca1\<lparr>source_buffer := projr r,
                        source_buffer_end := source_buffer_end ca1 + copy_size\<rparr>))
      else Some (Inr (segs, ca_data)))"

declare send_loop.simps [code]

text \<open>\<^verbatim>\<open>coreaudio_output_send\<close>: the loop from \<^verbatim>\<open>copied_size = 0\<close>, then
  \<^verbatim>\<open>return 0\<close>.\<close>

definition coreaudio_output_send ::
    "uint \<Rightarrow> receiver_data_t \<Rightarrow> coreaudio_output_data
       \<Rightarrow> (fault + (int \<times> coreaudio_output_data)) option" where
  "coreaudio_output_send SRC_BUF_SIZE data ca_data =
     (case send_loop SRC_BUF_SIZE data 0 [] ca_data of
        None \<Rightarrow> None
      | Some (Inl e) \<Rightarrow> Some (Inl e)
      | Some (Inr (segs, ca')) \<Rightarrow> Some (Inr (0, ca')))"

text \<open>Line 95 of \<^verbatim>\<open>coreaudio_output_init\<close>: \<^verbatim>\<open>memset(&ca_data, 0, sizeof(ca_data))\<close>.\<close>

definition ca_data_zeroed :: "uint \<Rightarrow> coreaudio_output_data" where
  "ca_data_zeroed SRC_BUF_SIZE =
     \<lparr>source_buffer = replicate (unat SRC_BUF_SIZE) 0,
      source_buffer_start = 0, source_buffer_end = 0\<rparr>"

section \<open>Driving the two operations\<close>

text \<open>
  The source has no caller of its own for the two operations: the network loop calls
  \<^verbatim>\<open>coreaudio_output_send\<close> once per packet and the audio queue calls the callback
  once per period, handing back the block the previous call enqueued. The two functions
  below run such sequences; \<open>feeds\<close> collects the content of each block as it is
  enqueued.
\<close>

fun feeds :: "uint \<Rightarrow> AudioQueueBuffer \<Rightarrow> nat \<Rightarrow> coreaudio_output_data
    \<Rightarrow> fault + (byte list list \<times> AudioQueueBuffer \<times> coreaudio_output_data)" where
  "feeds C buffer 0 ca = Inr ([], buffer, ca)"
| "feeds C buffer (Suc n) ca =
     and_then (audio_queue_output_callback C buffer ca)
       (\<lambda>(b1, ca1). and_then (feeds C b1 n ca1)
          (\<lambda>(blocks, b2, ca2). Inr (mAudioData b1 # blocks, b2, ca2)))"

fun sends :: "uint \<Rightarrow> receiver_data_t list \<Rightarrow> coreaudio_output_data
    \<Rightarrow> (fault + coreaudio_output_data) option" where
  "sends C [] ca = Some (Inr ca)"
| "sends C (d # ds) ca =
     (case coreaudio_output_send C d ca of
        None \<Rightarrow> None
      | Some (Inl e) \<Rightarrow> Some (Inl e)
      | Some (Inr (r, ca1)) \<Rightarrow> sends C ds ca1)"

text \<open>A packet holding the bytes \<open>bs\<close>, and an allocated block of capacity \<open>B\<close> whose
  content is still whatever the allocator left there (here the byte 255).\<close>

definition chunk :: "byte list \<Rightarrow> receiver_data_t" where
  "chunk bs = \<lparr>audio_size = of_nat (length bs), audio = bs\<rparr>"

definition block :: "uint \<Rightarrow> AudioQueueBuffer" where
  "block B = \<lparr>mAudioDataBytesCapacity = B, mAudioData = replicate (unat B) 255,
              mAudioDataByteSize = 0\<rparr>"

section \<open>Notions used to state the properties\<close>

text \<open>
  The state the two operations keep between calls: the storage has its declared size, the
  read cursor is a valid index, and the write cursor is a valid index or equal to the
  size (the write loop wraps it lazily, on the next iteration).
\<close>

definition wf :: "uint \<Rightarrow> coreaudio_output_data \<Rightarrow> bool" where
  "wf C ca \<longleftrightarrow> length (source_buffer ca) = unat C
      \<and> source_buffer_start ca < C \<and> source_buffer_end ca \<le> C"

text \<open>
  The number of bytes the copy logic of the callback takes to be present: the distance
  from the read cursor to the write cursor when the read cursor is strictly below it,
  and otherwise everything up to the end of the storage followed by everything from
  index 0 to the write cursor (lines 44-45 and 64-65).
\<close>

definition copyable :: "uint \<Rightarrow> coreaudio_output_data \<Rightarrow> nat" where
  "copyable C ca =
     (if source_buffer_start ca < source_buffer_end ca
      then unat (source_buffer_end ca) - unat (source_buffer_start ca)
      else unat C - unat (source_buffer_start ca) + unat (source_buffer_end ca))"

text \<open>The \<open>n\<close> bytes found from index \<open>p\<close> on, going round the storage.\<close>

definition ring_read :: "byte list \<Rightarrow> nat \<Rightarrow> nat \<Rightarrow> byte list" where
  "ring_read buf p n = map (\<lambda>i. buf ! ((p + i) mod length buf)) [0..<n]"

text \<open>The storage after the bytes \<open>xs\<close> have been stored one by one from index \<open>p\<close> on,
  going round.\<close>

fun ring_write :: "byte list \<Rightarrow> nat \<Rightarrow> byte list \<Rightarrow> byte list" where
  "ring_write buf p [] = buf"
| "ring_write buf p (x # xs) = ring_write (buf[p mod length buf := x]) (Suc p) xs"

text \<open>
  What the callbacks will deliver if nothing more is sent: the \<open>copyable\<close> bytes found
  from the read cursor on.
\<close>

definition unread :: "uint \<Rightarrow> coreaudio_output_data \<Rightarrow> byte list" where
  "unread C ca = ring_read (source_buffer ca) (unat (source_buffer_start ca)) (copyable C ca)"

section \<open>The primitives and the ring\<close>

lemma memcpy_ok:
  "doff + n \<le> length dst \<Longrightarrow> soff + n \<le> length src \<Longrightarrow>
   memcpy dst doff src soff n = Inr (take doff dst @ take n (drop soff src) @ drop (doff + n) dst)"
  by (simp add: memcpy_def)

lemma copy_size_unat:
  fixes a w :: uint
  shows "unat (if a > w then w else a) = min (unat w) (unat a)"
  by (simp add: word_less_nat_alt min_def)

lemma copy_span_char:
  fixes be :: uint
  assumes le: "source_buffer_start ca \<le> be"
    and be: "unat be \<le> length (source_buffer ca)"
    and cap: "unat copied + unat wanted = length (mAudioData buffer)"
    and len: "length (mAudioData buffer) = unat (mAudioDataBytesCapacity buffer)"
  shows "\<exists>buffer' ca' copied' wanted'.
     copy_span be (buffer, ca, copied, wanted) = Inr (buffer', ca', copied', wanted')
   \<and> length (mAudioData buffer') = length (mAudioData buffer)
   \<and> take (unat copied') (mAudioData buffer')
       = take (unat copied) (mAudioData buffer)
         @ take (min (unat wanted) (unat be - unat (source_buffer_start ca)))
                (drop (unat (source_buffer_start ca)) (source_buffer ca))
   \<and> mAudioDataBytesCapacity buffer' = mAudioDataBytesCapacity buffer
   \<and> source_buffer ca' = source_buffer ca
   \<and> source_buffer_end ca' = source_buffer_end ca
   \<and> unat (source_buffer_start ca')
       = unat (source_buffer_start ca) + min (unat wanted) (unat be - unat (source_buffer_start ca))
   \<and> unat copied' = unat copied + min (unat wanted) (unat be - unat (source_buffer_start ca))
   \<and> unat wanted' = unat wanted - min (unat wanted) (unat be - unat (source_buffer_start ca))"
proof -
  define st where "st = source_buffer_start ca"
  define cs where "cs = (if be - st > wanted then wanted else be - st)"
  define n where "n = min (unat wanted) (unat be - unat st)"
  have sub: "unat (be - st) = unat be - unat st"
    using le by (simp add: st_def unat_sub)
  have n: "unat cs = n"
    by (simp add: cs_def n_def copy_size_unat sub)
  have n_le: "n \<le> unat wanted" "n \<le> unat be - unat st"
    by (simp_all add: n_def)
  have st_le: "unat st \<le> unat be"
    using le by (simp add: st_def word_le_nat_alt)
  have st': "unat (st + cs) = unat st + n"
  proof -
    have "unat st + unat cs \<le> unat be" using n n_le st_le by simp
    then have "unat st + unat cs < 2 ^ LENGTH(32)"
      using unsigned_less [of be, where 'a=nat] by (simp add: order_le_less_trans)
    then show ?thesis using n by (simp add: unat_add_lem [THEN iffD1])
  qed
  have cp': "unat (copied + cs) = unat copied + n"
  proof -
    have "unat copied + unat cs \<le> unat (mAudioDataBytesCapacity buffer)"
      using n n_le cap len by simp
    then have "unat copied + unat cs < 2 ^ LENGTH(32)"
      using unsigned_less [of "mAudioDataBytesCapacity buffer", where 'a=nat]
      by (simp add: order_le_less_trans)
    then show ?thesis using n by (simp add: unat_add_lem [THEN iffD1])
  qed
  have w': "unat (wanted - cs) = unat wanted - n"
  proof -
    have "cs \<le> wanted" using n n_le by (simp add: word_le_nat_alt)
    then show ?thesis using n by (simp add: unat_sub)
  qed
  have b1: "unat copied + n \<le> length (mAudioData buffer)"
    using cap n_le by simp
  have b2: "unat st + n \<le> length (source_buffer ca)"
    using be n_le st_le by simp
  have run: "copy_span be (buffer, ca, copied, wanted)
      = Inr (buffer\<lparr>mAudioData := take (unat copied) (mAudioData buffer)
                        @ take n (drop (unat st) (source_buffer ca))
                        @ drop (unat copied + n) (mAudioData buffer)\<rparr>,
             ca\<lparr>source_buffer_start := st + cs\<rparr>, copied + cs, wanted - cs)"
    unfolding copy_span_def Let_def prod.case st_def [symmetric]
    unfolding cs_def [symmetric] n
    by (simp add: memcpy_ok [OF b1 b2] and_then_def)
  have tk: "length (take n (drop (unat st) (source_buffer ca))) = n"
    using b2 by simp
  show ?thesis
    unfolding st_def [symmetric] n_def [symmetric]
    apply (rule exI [of _ "buffer\<lparr>mAudioData := take (unat copied) (mAudioData buffer)
                        @ take n (drop (unat st) (source_buffer ca))
                        @ drop (unat copied + n) (mAudioData buffer)\<rparr>"])
    apply (rule exI [of _ "ca\<lparr>source_buffer_start := st + cs\<rparr>"])
    apply (rule exI [of _ "copied + cs"])
    apply (rule exI [of _ "wanted - cs"])
    using run st' cp' w' b1 b2 tk by (simp add: min_absorb2)
qed

lemma ring_read_nowrap:
  "p + n \<le> length buf \<Longrightarrow> ring_read buf p n = take n (drop p buf)"
  by (rule nth_equalityI) (simp_all add: ring_read_def)

lemma ring_read_append:
  "ring_read buf p (m + n) = ring_read buf p m @ ring_read buf (p + m) n"
  by (rule nth_equalityI) (auto simp: ring_read_def nth_append add.assoc)

lemma ring_read_length [simp]: "length (ring_read buf p n) = n"
  by (simp add: ring_read_def)

lemma ring_read_mod: "ring_read buf (p mod length buf) n = ring_read buf p n"
  by (simp add: ring_read_def mod_add_left_eq)

lemma ring_read_wrap:
  assumes "p \<le> length buf" "n \<le> length buf"
  shows "ring_read buf p (length buf - p + n) = drop p buf @ take n buf"
proof -
  have "ring_read buf p (length buf - p + n)
      = ring_read buf p (length buf - p) @ ring_read buf (p + (length buf - p)) n"
    by (rule ring_read_append)
  also have "ring_read buf p (length buf - p) = drop p buf"
    using assms by (simp add: ring_read_nowrap)
  also have "ring_read buf (p + (length buf - p)) n = ring_read buf 0 n"
    using assms ring_read_mod [of buf "length buf" n] by simp
  also have "\<dots> = take n buf"
    using assms by (simp add: ring_read_nowrap)
  finally show ?thesis .
qed

lemma ring_write_length [simp]: "length (ring_write buf p xs) = length buf"
  by (induction xs arbitrary: buf p) simp_all

lemma ring_write_append:
  "ring_write buf p (xs @ ys) = ring_write (ring_write buf p xs) (p + length xs) ys"
  by (induction xs arbitrary: buf p) simp_all

lemma ring_write_cong_pos:
  "p mod length buf = q mod length buf \<Longrightarrow> ring_write buf p xs = ring_write buf q xs"
proof (induction xs arbitrary: buf p q)
  case Nil
  then show ?case by simp
next
  case (Cons x xs)
  have "Suc p mod length buf = Suc q mod length buf"
    using Cons.prems by (metis mod_Suc_eq)
  then have "ring_write (buf[p mod length buf := x]) (Suc p) xs
           = ring_write (buf[p mod length buf := x]) (Suc q) xs"
    by (intro Cons.IH) simp
  then show ?case using Cons.prems by simp
qed

lemma ring_write_nowrap:
  "p + length xs \<le> length buf \<Longrightarrow>
   ring_write buf p xs = take p buf @ xs @ drop (p + length xs) buf"
proof (induction xs arbitrary: buf p)
  case Nil
  then show ?case by simp
next
  case (Cons x xs)
  then have p: "p < length buf" by simp
  have "ring_write (buf[p := x]) (Suc p) xs
      = take (Suc p) (buf[p := x]) @ xs @ drop (Suc p + length xs) (buf[p := x])"
    using Cons.prems by (intro Cons.IH) simp
  also have "take (Suc p) (buf[p := x]) = take p buf @ [x]"
    using p by (simp add: take_Suc_conv_app_nth)
  finally show ?case using p by simp
qed

section \<open>What one callback does\<close>

lemma callback_fill_char:
  assumes cap: "unat copied + unat wanted = length (mAudioData buffer)"
  shows "callback_fill (buffer, ca, copied, wanted)
       = Inr (buffer\<lparr>mAudioData := take (unat copied) (mAudioData buffer) @ replicate (unat wanted) 0,
                     mAudioDataByteSize := mAudioDataBytesCapacity buffer\<rparr>, ca)"
proof (cases "wanted = 0")
  case True
  then show ?thesis using cap by (simp add: callback_fill_def and_then_def)
next
  case False
  then have "0 < wanted" by (simp add: word_neq_0_conv)
  then show ?thesis using cap by (simp add: callback_fill_def and_then_def memset_def)
qed

lemma callback_wrap_fields:
  "source_buffer (callback_wrap C ca) = source_buffer ca"
  "source_buffer_start (callback_wrap C ca)
     = (if source_buffer_start ca = C then 0 else source_buffer_start ca)"
  "source_buffer_end (callback_wrap C ca)
     = (if source_buffer_start ca = C \<and> source_buffer_end ca = C then 0 else source_buffer_end ca)"
  by (simp_all add: callback_wrap_def Let_def)

lemma callback_char_lt:
  assumes wf: "wf C ca"
    and len: "length (mAudioData buffer) = unat (mAudioDataBytesCapacity buffer)"
    and lt: "source_buffer_start ca < source_buffer_end ca"
  shows "\<exists>buffer' ca'.
      audio_queue_output_callback C buffer ca = Inr (buffer', ca')
    \<and> mAudioData buffer'
        = ring_read (source_buffer ca) (unat (source_buffer_start ca))
            (min (unat (mAudioDataBytesCapacity buffer)) (copyable C ca))
          @ replicate (unat (mAudioDataBytesCapacity buffer) - copyable C ca) 0
    \<and> mAudioDataByteSize buffer' = mAudioDataBytesCapacity buffer
    \<and> mAudioDataBytesCapacity buffer' = mAudioDataBytesCapacity buffer
    \<and> source_buffer ca' = source_buffer ca
    \<and> unat (source_buffer_start ca')
        = (unat (source_buffer_start ca)
           + min (unat (mAudioDataBytesCapacity buffer)) (copyable C ca)) mod unat C
    \<and> source_buffer_end ca'
        = (if source_buffer_end ca = C
              \<and> unat C \<le> unat (source_buffer_start ca) + unat (mAudioDataBytesCapacity buffer)
           then 0 else source_buffer_end ca)"
proof -
  define B where "B = unat (mAudioDataBytesCapacity buffer)"
  define s where "s = unat (source_buffer_start ca)"
  define e where "e = unat (source_buffer_end ca)"
  define c where "c = unat C"
  define buf where "buf = source_buffer ca"
  define n1 where "n1 = min B (e - s)"
  have k: "copyable C ca = e - s"
    using lt by (simp add: copyable_def e_def s_def)
  have lenb: "length buf = c" and s_lt_c: "s < c" and e_le_c: "e \<le> c"
    using wf by (simp_all add: wf_def buf_def c_def s_def e_def word_less_nat_alt word_le_nat_alt)
  have s_lt_e: "s < e"
    using lt by (simp add: s_def e_def word_less_nat_alt)
  have le: "source_buffer_start ca \<le> source_buffer_end ca"
    using lt by simp
  have be: "unat (source_buffer_end ca) \<le> length (source_buffer ca)"
    using lenb e_le_c by (simp add: buf_def e_def)
  have cap0: "unat (0::uint) + unat (mAudioDataBytesCapacity buffer) = length (mAudioData buffer)"
    using len by simp
  from copy_span_char [OF le be cap0 len]
  obtain b1 ca1 c1 w1 where
    r1: "copy_span (source_buffer_end ca) (buffer, ca, 0, mAudioDataBytesCapacity buffer)
           = Inr (b1, ca1, c1, w1)"
    and l1: "length (mAudioData b1) = length (mAudioData buffer)"
    and t1: "take (unat c1) (mAudioData b1) = take n1 (drop s buf)"
    and cp1: "mAudioDataBytesCapacity b1 = mAudioDataBytesCapacity buffer"
    and sb1: "source_buffer ca1 = buf"
    and e1: "source_buffer_end ca1 = source_buffer_end ca"
    and s1: "unat (source_buffer_start ca1) = s + n1"
    and c1: "unat c1 = n1"
    and w1: "unat w1 = B - n1"
    unfolding B_def [symmetric] s_def [symmetric] e_def [symmetric] buf_def [symmetric]
      n1_def [symmetric]
    by auto
  define ca2 where "ca2 = callback_wrap C ca1"
  have n1_le: "n1 \<le> B" "n1 \<le> e - s" by (simp_all add: n1_def)
  have hitC: "source_buffer_start ca1 = C \<longleftrightarrow> s + n1 = c"
    using s1 by (simp add: word_unat_eq_iff c_def)
  have endC: "source_buffer_end ca = C \<longleftrightarrow> e = c"
    by (simp add: word_unat_eq_iff c_def e_def)
  have skip: "\<not> (w1 > 0 \<and> source_buffer_start ca2 < source_buffer_end ca2)"
  proof
    assume a: "w1 > 0 \<and> source_buffer_start ca2 < source_buffer_end ca2"
    then have "0 < unat w1" by (simp add: word_less_nat_alt)
    then have "n1 = e - s" using w1 by (simp add: n1_def min_def split: if_splits)
    then have "unat (source_buffer_start ca1) = e" using s1 s_lt_e by simp
    then have "source_buffer_start ca1 = source_buffer_end ca1"
      using e1 by (simp add: word_unat_eq_iff e_def)
    then have "source_buffer_start ca2 = source_buffer_end ca2"
      by (simp add: ca2_def callback_wrap_fields)
    with a show False by simp
  qed
  have p2: "callback_part2 (b1, ca2, c1, w1) = Inr (b1, ca2, c1, w1)"
    using skip by (auto simp add: callback_part2_def)
  have capf: "unat c1 + unat w1 = length (mAudioData b1)"
    using c1 w1 n1_le l1 len by (simp add: B_def)
  have run: "audio_queue_output_callback C buffer ca
      = Inr (b1\<lparr>mAudioData := take (unat c1) (mAudioData b1) @ replicate (unat w1) 0,
                 mAudioDataByteSize := mAudioDataBytesCapacity b1\<rparr>, ca2)"
    using lt r1 p2 callback_fill_char [OF capf]
    by (simp add: audio_queue_output_callback_def callback_part1_def and_then_def ca2_def)
  have blk: "take (unat c1) (mAudioData b1) @ replicate (unat w1) 0
      = ring_read buf s (min B (e - s)) @ replicate (B - (e - s)) 0"
  proof -
    have "s + n1 \<le> length buf" using n1_le s_lt_e e_le_c lenb by simp
    then have "ring_read buf s n1 = take n1 (drop s buf)" by (rule ring_read_nowrap)
    moreover have "B - n1 = B - (e - s)" by (simp add: n1_def min_def)
    ultimately show ?thesis using t1 w1 by (simp add: n1_def)
  qed
  have st: "unat (source_buffer_start ca2) = (s + min B (e - s)) mod c"
  proof (cases "s + n1 = c")
    case True
    then show ?thesis using hitC by (simp add: ca2_def callback_wrap_fields n1_def)
  next
    case False
    then have "s + n1 < c" using n1_le s_lt_e e_le_c by simp
    then show ?thesis using False hitC s1 by (simp add: ca2_def callback_wrap_fields n1_def)
  qed
  have en: "source_buffer_end ca2
      = (if source_buffer_end ca = C \<and> c \<le> s + B then 0 else source_buffer_end ca)"
  proof (cases "s + n1 = c")
    case True
    then have "e = c" using n1_le s_lt_e e_le_c by simp
    moreover have "c \<le> s + B" using True n1_le by simp
    ultimately show ?thesis using True hitC endC e1 by (simp add: ca2_def callback_wrap_fields)
  next
    case False
    have "\<not> (e = c \<and> c \<le> s + B)"
    proof
      assume "e = c \<and> c \<le> s + B"
      then have "n1 = c - s" using s_lt_c by (auto simp add: n1_def min_def)
      then show False using False s_lt_c by simp
    qed
    then show ?thesis using False hitC endC e1 by (auto simp add: ca2_def callback_wrap_fields)
  qed
  show ?thesis
    unfolding B_def [symmetric] s_def [symmetric] buf_def [symmetric] c_def [symmetric] k
    using run blk st en cp1 sb1 by (simp add: ca2_def callback_wrap_fields)
qed

lemma callback_char_ge:
  assumes wf: "wf C ca"
    and len: "length (mAudioData buffer) = unat (mAudioDataBytesCapacity buffer)"
    and ge: "\<not> source_buffer_start ca < source_buffer_end ca"
  shows "\<exists>buffer' ca'.
      audio_queue_output_callback C buffer ca = Inr (buffer', ca')
    \<and> mAudioData buffer'
        = ring_read (source_buffer ca) (unat (source_buffer_start ca))
            (min (unat (mAudioDataBytesCapacity buffer)) (copyable C ca))
          @ replicate (unat (mAudioDataBytesCapacity buffer) - copyable C ca) 0
    \<and> mAudioDataByteSize buffer' = mAudioDataBytesCapacity buffer
    \<and> mAudioDataBytesCapacity buffer' = mAudioDataBytesCapacity buffer
    \<and> source_buffer ca' = source_buffer ca
    \<and> unat (source_buffer_start ca')
        = (unat (source_buffer_start ca)
           + min (unat (mAudioDataBytesCapacity buffer)) (copyable C ca)) mod unat C
    \<and> source_buffer_end ca'
        = (if source_buffer_end ca = C
              \<and> unat C \<le> unat (source_buffer_start ca) + unat (mAudioDataBytesCapacity buffer)
           then 0 else source_buffer_end ca)"
proof -
  define B where "B = unat (mAudioDataBytesCapacity buffer)"
  define s where "s = unat (source_buffer_start ca)"
  define e where "e = unat (source_buffer_end ca)"
  define c where "c = unat C"
  define buf where "buf = source_buffer ca"
  define n1 where "n1 = min B (c - s)"
  have k: "copyable C ca = c - s + e"
    using ge by (simp add: copyable_def e_def s_def c_def)
  have lenb: "length buf = c" and s_lt_c: "s < c"
    using wf by (simp_all add: wf_def buf_def c_def s_def word_less_nat_alt)
  have e_le_s: "e \<le> s"
    using ge by (simp add: s_def e_def word_less_nat_alt)
  have endC: "source_buffer_end ca \<noteq> C"
    using e_le_s s_lt_c by (auto simp add: c_def e_def)
  have le: "source_buffer_start ca \<le> C"
    using wf by (auto simp add: wf_def)
  have be: "unat C \<le> length (source_buffer ca)"
    using lenb by (simp add: buf_def c_def)
  have cap0: "unat (0::uint) + unat (mAudioDataBytesCapacity buffer) = length (mAudioData buffer)"
    using len by simp
  from copy_span_char [OF le be cap0 len]
  obtain b1 ca1 c1 w1 where
    r1: "copy_span C (buffer, ca, 0, mAudioDataBytesCapacity buffer) = Inr (b1, ca1, c1, w1)"
    and l1: "length (mAudioData b1) = length (mAudioData buffer)"
    and t1: "take (unat c1) (mAudioData b1) = take n1 (drop s buf)"
    and cp1: "mAudioDataBytesCapacity b1 = mAudioDataBytesCapacity buffer"
    and sb1: "source_buffer ca1 = buf"
    and e1: "source_buffer_end ca1 = source_buffer_end ca"
    and s1: "unat (source_buffer_start ca1) = s + n1"
    and c1: "unat c1 = n1"
    and w1: "unat w1 = B - n1"
    unfolding B_def [symmetric] s_def [symmetric] c_def [symmetric] buf_def [symmetric]
      n1_def [symmetric]
    by auto
  define ca2 where "ca2 = callback_wrap C ca1"
  have n1_le: "n1 \<le> B" "n1 \<le> c - s" by (simp_all add: n1_def)
  have hitC: "source_buffer_start ca1 = C \<longleftrightarrow> s + n1 = c"
    using s1 by (simp add: word_unat_eq_iff c_def)
  have sb2: "source_buffer ca2 = buf"
    using sb1 by (simp add: ca2_def callback_wrap_fields)
  have e2: "source_buffer_end ca2 = source_buffer_end ca"
    using e1 endC by (simp add: ca2_def callback_wrap_fields)
  have s2: "unat (source_buffer_start ca2) = (s + n1) mod c"
  proof (cases "s + n1 = c")
    case True
    then show ?thesis using hitC by (simp add: ca2_def callback_wrap_fields)
  next
    case False
    then have "s + n1 < c" using n1_le s_lt_c by simp
    then show ?thesis using False hitC s1 by (simp add: ca2_def callback_wrap_fields)
  qed
  have capf: "unat c1 + unat w1 = length (mAudioData b1)"
    using c1 w1 n1_le l1 len by (simp add: B_def)
  have len1: "length (mAudioData b1) = unat (mAudioDataBytesCapacity b1)"
    using l1 len cp1 by simp
  have part1: "audio_queue_output_callback C buffer ca
      = and_then (callback_part2 (b1, ca2, c1, w1)) callback_fill"
    using ge r1
    by (simp add: audio_queue_output_callback_def callback_part1_def and_then_def ca2_def)
  have endres: "(if source_buffer_end ca = C \<and> c \<le> s + B then 0 else source_buffer_end ca)
      = source_buffer_end ca"
    using endC by simp
  show ?thesis
  proof (cases "w1 > 0 \<and> source_buffer_start ca2 < source_buffer_end ca2")
    case False
    then have p2: "callback_part2 (b1, ca2, c1, w1) = Inr (b1, ca2, c1, w1)"
      by (auto simp add: callback_part2_def)
    have run: "audio_queue_output_callback C buffer ca
        = Inr (b1\<lparr>mAudioData := take (unat c1) (mAudioData b1) @ replicate (unat w1) 0,
                   mAudioDataByteSize := mAudioDataBytesCapacity b1\<rparr>, ca2)"
      using part1 p2 callback_fill_char [OF capf] by (simp add: and_then_def)
    have cases: "B \<le> c - s \<or> (c - s < B \<and> e = 0)"
    proof (cases "B \<le> c - s")
      case True then show ?thesis by simp
    next
      case nle: False
      then have n1: "n1 = c - s" by (simp add: n1_def)
      then have "0 < unat w1" using w1 nle by simp
      then have "0 < w1" by (simp add: word_less_nat_alt)
      then have "\<not> source_buffer_start ca2 < source_buffer_end ca2" using False by simp
      moreover have "unat (source_buffer_start ca2) = 0" using s2 n1 s_lt_c by simp
      ultimately have "e = 0" using e2 by (simp add: word_less_nat_alt e_def)
      then show ?thesis using nle by simp
    qed
    have nk: "min B (c - s + e) = n1" "B - (c - s + e) = B - n1"
      using cases by (auto simp add: n1_def)
    have "s + n1 \<le> length buf" using n1_le s_lt_c lenb by simp
    then have rr: "ring_read buf s n1 = take n1 (drop s buf)" by (rule ring_read_nowrap)
    show ?thesis
      unfolding B_def [symmetric] s_def [symmetric] buf_def [symmetric] c_def [symmetric] k
        endres nk
      using run rr t1 w1 s2 e2 cp1 sb2 by simp
  next
    case True
    then have w1pos: "0 < unat w1" by (simp add: word_less_nat_alt)
    then have n1: "n1 = c - s" using w1 by (simp add: n1_def min_def split: if_splits)
    have s2z: "unat (source_buffer_start ca2) = 0" using s2 n1 s_lt_c by simp
    have epos: "0 < e" using True s2z by (simp add: word_less_nat_alt e_def e2)
    define n2 where "n2 = min (B - n1) e"
    have le2: "source_buffer_start ca2 \<le> source_buffer_end ca2" using True by auto
    have be2: "unat (source_buffer_end ca2) \<le> length (source_buffer ca2)"
      using e2 sb2 lenb e_le_s s_lt_c by (simp add: e_def)
    have m2: "min (unat w1) (unat (source_buffer_end ca2)) = n2"
      by (simp add: e2 e_def w1 n2_def)
    have ex: "\<exists>b3 ca3 c3 w3.
        copy_span (source_buffer_end ca2) (b1, ca2, c1, w1) = Inr (b3, ca3, c3, w3)
      \<and> length (mAudioData b3) = length (mAudioData b1)
      \<and> take (unat c3) (mAudioData b3) = take (unat c1) (mAudioData b1) @ take n2 buf
      \<and> mAudioDataBytesCapacity b3 = mAudioDataBytesCapacity b1
      \<and> source_buffer ca3 = buf
      \<and> source_buffer_end ca3 = source_buffer_end ca2
      \<and> unat (source_buffer_start ca3) = n2
      \<and> unat c3 = unat c1 + n2
      \<and> unat w3 = unat w1 - n2"
      using copy_span_char [OF le2 be2 capf len1] by (simp add: s2z sb2 m2)
    then obtain b3 ca3 c3 w3 where
      r3: "copy_span (source_buffer_end ca2) (b1, ca2, c1, w1) = Inr (b3, ca3, c3, w3)"
      and l3: "length (mAudioData b3) = length (mAudioData b1)"
      and t3: "take (unat c3) (mAudioData b3) = take (unat c1) (mAudioData b1) @ take n2 buf"
      and cp3: "mAudioDataBytesCapacity b3 = mAudioDataBytesCapacity b1"
      and sb3: "source_buffer ca3 = buf"
      and e3: "source_buffer_end ca3 = source_buffer_end ca2"
      and s3: "unat (source_buffer_start ca3) = n2"
      and c3: "unat c3 = unat c1 + n2"
      and w3: "unat w3 = unat w1 - n2"
      by blast
    have p2: "callback_part2 (b1, ca2, c1, w1) = Inr (b3, ca3, c3, w3)"
      using True r3 by (simp add: callback_part2_def)
    have n2_le: "n2 \<le> B - n1" "n2 \<le> e" by (simp_all add: n2_def)
    have capf3: "unat c3 + unat w3 = length (mAudioData b3)"
      using c3 w3 c1 w1 n1_le n2_le l3 l1 len by (simp add: B_def)
    have run: "audio_queue_output_callback C buffer ca
        = Inr (b3\<lparr>mAudioData := take (unat c3) (mAudioData b3) @ replicate (unat w3) 0,
                   mAudioDataByteSize := mAudioDataBytesCapacity b3\<rparr>, ca3)"
      using part1 p2 callback_fill_char [OF capf3] by (simp add: and_then_def)
    have nk: "min B (c - s + e) = c - s + n2" "B - (c - s + e) = B - n1 - n2"
      using n1 n1_le by (auto simp add: n2_def min_def)
    have "n2 \<le> length buf" using n2_le e_le_s s_lt_c lenb by simp
    then have rr: "ring_read buf s (c - s + n2) = drop s buf @ take n2 buf"
      using ring_read_wrap [of s buf n2] s_lt_c lenb by simp
    have t1': "take (unat c1) (mAudioData b1) = drop s buf"
      using t1 n1 lenb by simp
    have st: "(s + (c - s + n2)) mod c = n2"
      using n2_le e_le_s s_lt_c by simp
    show ?thesis
      unfolding B_def [symmetric] s_def [symmetric] buf_def [symmetric] c_def [symmetric] k
        endres nk
      using run rr t3 t1' w3 w1 s3 st e3 e2 cp3 cp1 sb3 by simp
  qed
qed

lemma callback_char:
  assumes wf: "wf C ca"
    and len: "length (mAudioData buffer) = unat (mAudioDataBytesCapacity buffer)"
  shows "\<exists>buffer' ca'.
      audio_queue_output_callback C buffer ca = Inr (buffer', ca')
    \<and> mAudioData buffer'
        = ring_read (source_buffer ca) (unat (source_buffer_start ca))
            (min (unat (mAudioDataBytesCapacity buffer)) (copyable C ca))
          @ replicate (unat (mAudioDataBytesCapacity buffer) - copyable C ca) 0
    \<and> mAudioDataByteSize buffer' = mAudioDataBytesCapacity buffer
    \<and> mAudioDataBytesCapacity buffer' = mAudioDataBytesCapacity buffer
    \<and> source_buffer ca' = source_buffer ca
    \<and> unat (source_buffer_start ca')
        = (unat (source_buffer_start ca)
           + min (unat (mAudioDataBytesCapacity buffer)) (copyable C ca)) mod unat C
    \<and> source_buffer_end ca'
        = (if source_buffer_end ca = C
              \<and> unat C \<le> unat (source_buffer_start ca) + unat (mAudioDataBytesCapacity buffer)
           then 0 else source_buffer_end ca)"
  using callback_char_lt [OF wf len] callback_char_ge [OF wf len] by blast

section \<open>What the write loop does\<close>

lemma send_loop_char:
  assumes len: "length (source_buffer ca) = unat C"
    and pos: "0 < C"
    and en: "source_buffer_end ca \<le> C"
    and cp: "copied \<le> audio_size data"
    and au: "unat (audio_size data) \<le> length (audio data)"
  shows "\<exists>segs' ca'.
      send_loop C data copied segs ca = Some (Inr (segs @ segs', ca'))
    \<and> source_buffer ca'
        = ring_write (source_buffer ca) (unat (source_buffer_end ca))
            (take (unat (audio_size data) - unat copied) (drop (unat copied) (audio data)))
    \<and> source_buffer_start ca' = source_buffer_start ca
    \<and> unat (source_buffer_end ca')
        = (if unat (audio_size data) - unat copied = 0 then unat (source_buffer_end ca)
           else (unat (source_buffer_end ca) + (unat (audio_size data) - unat copied) - 1)
                  mod unat C + 1)
    \<and> (\<forall>x\<in>set segs'. 0 < x \<and> x \<le> unat C)
    \<and> sum_list segs' = unat (audio_size data) - unat copied
    \<and> length segs' \<le> unat (audio_size data) - unat copied"
  using len en cp
proof (induction "unat (audio_size data) - unat copied" arbitrary: copied segs ca rule: less_induct)
  case less
  define n where "n = unat (audio_size data) - unat copied"
  define c where "c = unat C"
  define e where "e = unat (source_buffer_end ca)"
  have cpos: "0 < c" using pos by (simp add: c_def word_less_nat_alt)
  have cp_le: "unat copied \<le> unat (audio_size data)"
    using less.prems(3) by (simp add: word_le_nat_alt)
  have left: "unat (audio_size data - copied) = n"
    using less.prems(3) by (simp add: n_def unat_sub)
  show ?case
  proof (cases "n = 0")
    case True
    then have "\<not> audio_size data - copied > 0"
      using left by (simp add: word_less_nat_alt)
    then have "send_loop C data copied segs ca = Some (Inr (segs, ca))"
      by (subst send_loop.simps) simp
    then show ?thesis using True by (simp add: n_def)
  next
    case False
    then have gt: "audio_size data - copied > 0"
      using left by (simp add: word_less_nat_alt)
    define ca1 where "ca1 = (if source_buffer_end ca = C
                             then ca\<lparr>source_buffer_end := 0\<rparr> else ca)"
    define e0 where "e0 = unat (source_buffer_end ca1)"
    define ba where "ba = C - source_buffer_end ca1"
    define cs where "cs = (if audio_size data - copied < ba then audio_size data - copied else ba)"
    have e_le: "e \<le> c" using less.prems(2) by (simp add: e_def c_def word_le_nat_alt)
    have e0: "e0 = e mod c"
    proof (cases "source_buffer_end ca = C")
      case True
      then show ?thesis by (simp add: e0_def ca1_def e_def c_def)
    next
      case False
      then have "e \<noteq> c" by (simp add: e_def c_def word_unat_eq_iff)
      then show ?thesis using False e_le by (simp add: e0_def ca1_def e_def)
    qed
    have e0_lt: "e0 < c" using e0 cpos by simp
    have end1_le: "source_buffer_end ca1 \<le> C"
      using e0_lt by (simp add: e0_def c_def word_le_nat_alt)
    have ba: "unat ba = c - e0"
      using end1_le by (simp add: ba_def unat_sub e0_def c_def)
    have csn: "unat cs = min n (c - e0)"
      using left ba by (simp add: cs_def word_less_nat_alt min_def)
    define k where "k = min n (c - e0)"
    have kpos: "0 < k" using False e0_lt by (simp add: k_def)
    have k_le: "k \<le> n" "e0 + k \<le> c" using e0_lt by (simp_all add: k_def)
    have buf1: "source_buffer ca1 = source_buffer ca"
      by (simp add: ca1_def)
    have b1: "e0 + k \<le> length (source_buffer ca1)"
      using k_le less.prems(1) by (simp add: buf1 c_def)
    have b2: "unat copied + k \<le> length (audio data)"
      using k_le au cp_le by (simp add: n_def)
    define buf' where "buf' = take e0 (source_buffer ca) @ take k (drop (unat copied) (audio data))
                               @ drop (e0 + k) (source_buffer ca)"
    have mc: "memcpy (source_buffer ca1) e0 (audio data) (unat copied) k = Inr buf'"
      using memcpy_ok [OF b1 b2] by (simp add: buf'_def buf1)
    define ca2 where "ca2 = ca1\<lparr>source_buffer := buf',
                                source_buffer_end := source_buffer_end ca1 + cs\<rparr>"
    have step: "send_loop C data copied segs ca
              = send_loop C data (copied + cs) (segs @ [k]) ca2"
      apply (subst send_loop.simps)
      unfolding Let_def ca1_def [symmetric]
      unfolding ba_def [symmetric]
      unfolding cs_def [symmetric] e0_def [symmetric] csn k_def [symmetric] mc
      using gt by (simp add: ca2_def)
    have cp2: "unat (copied + cs) = unat copied + k"
    proof -
      have "unat copied + unat cs \<le> unat (audio_size data)"
        using csn k_le cp_le by (simp add: n_def k_def)
      then have "unat copied + unat cs < 2 ^ LENGTH(32)"
        using unsigned_less [of "audio_size data", where 'a=nat] by (simp add: order_le_less_trans)
      then show ?thesis using csn by (simp add: unat_add_lem [THEN iffD1] k_def)
    qed
    have e2: "unat (source_buffer_end ca2) = e0 + k"
    proof -
      have "unat (source_buffer_end ca1) + unat cs \<le> unat C"
        using csn k_le by (simp add: e0_def c_def k_def)
      then have "unat (source_buffer_end ca1) + unat cs < 2 ^ LENGTH(32)"
        using unsigned_less [of C, where 'a=nat] by (simp add: order_le_less_trans)
      then show ?thesis using csn by (simp add: ca2_def unat_add_lem [THEN iffD1] e0_def k_def)
    qed
    have len2: "length (source_buffer ca2) = unat C"
      using b1 b2 less.prems(1) by (simp add: ca2_def buf'_def buf1)
    have en2: "source_buffer_end ca2 \<le> C"
      using e2 k_le by (simp add: word_le_nat_alt c_def)
    have cple2: "copied + cs \<le> audio_size data"
      using cp2 k_le cp_le by (simp add: word_le_nat_alt n_def)
    have n2: "unat (audio_size data) - unat (copied + cs) = n - k"
      using cp2 by (simp add: n_def)
    have dec: "unat (audio_size data) - unat (copied + cs) < unat (audio_size data) - unat copied"
      using n2 kpos k_le False by (simp add: n_def)
    have n2': "unat (audio_size data) - (unat copied + k) = n - k"
      by (simp add: n_def)
    have sb2: "source_buffer ca2 = buf'" by (simp add: ca2_def)
    have st2: "source_buffer_start ca2 = source_buffer_start ca" by (simp add: ca2_def ca1_def)
    have ih: "\<exists>segs2 ca'.
        send_loop C data (copied + cs) (segs @ [k]) ca2 = Some (Inr ((segs @ [k]) @ segs2, ca'))
      \<and> source_buffer ca' = ring_write buf' (e0 + k)
                 (take (n - k) (drop (unat copied + k) (audio data)))
      \<and> source_buffer_start ca' = source_buffer_start ca
      \<and> unat (source_buffer_end ca')
                 = (if n - k = 0 then e0 + k else (e0 + k + (n - k) - 1) mod c + 1)
      \<and> (\<forall>x\<in>set segs2. 0 < x \<and> x \<le> c)
      \<and> sum_list segs2 = n - k
      \<and> length segs2 \<le> n - k"
      using less.hyps [OF dec len2 en2 cple2, of "segs @ [k]"]
      unfolding cp2 n2' e2 sb2 st2 c_def [symmetric] by simp
    then obtain segs2 ca' where
      r: "send_loop C data (copied + cs) (segs @ [k]) ca2 = Some (Inr ((segs @ [k]) @ segs2, ca'))"
      and sb: "source_buffer ca' = ring_write buf' (e0 + k)
                 (take (n - k) (drop (unat copied + k) (audio data)))"
      and st: "source_buffer_start ca' = source_buffer_start ca"
      and ee: "unat (source_buffer_end ca')
                 = (if n - k = 0 then e0 + k else (e0 + k + (n - k) - 1) mod c + 1)"
      and sg: "\<forall>x\<in>set segs2. 0 < x \<and> x \<le> c"
      and sm: "sum_list segs2 = n - k"
      and ln: "length segs2 \<le> n - k"
      by blast
    have seg1: "ring_write (source_buffer ca) e (take k (drop (unat copied) (audio data))) = buf'"
    proof -
      have lk: "length (take k (drop (unat copied) (audio data))) = k"
        using b2 by simp
      have "ring_write (source_buffer ca) e (take k (drop (unat copied) (audio data)))
          = ring_write (source_buffer ca) e0 (take k (drop (unat copied) (audio data)))"
        using e0 less.prems(1) by (intro ring_write_cong_pos) (simp add: c_def)
      also have "\<dots> = buf'"
        using b1 lk by (simp add: ring_write_nowrap buf'_def buf1)
      finally show ?thesis .
    qed
    have split: "take n (drop (unat copied) (audio data))
        = take k (drop (unat copied) (audio data)) @ take (n - k) (drop (unat copied + k) (audio data))"
    proof -
      have "take n (drop (unat copied) (audio data))
          = take (k + (n - k)) (drop (unat copied) (audio data))"
        using k_le by simp
      also have "\<dots> = take k (drop (unat copied) (audio data))
                     @ take (n - k) (drop k (drop (unat copied) (audio data)))"
        by (rule take_add)
      finally show ?thesis by (simp add: add.commute)
    qed
    have sbf: "source_buffer ca'
        = ring_write (source_buffer ca) e (take n (drop (unat copied) (audio data)))"
    proof -
      have lk: "length (take k (drop (unat copied) (audio data))) = k"
        using b2 by simp
      have "ring_write buf' (e + k) (take (n - k) (drop (unat copied + k) (audio data)))
          = ring_write buf' (e0 + k) (take (n - k) (drop (unat copied + k) (audio data)))"
      proof (rule ring_write_cong_pos)
        have "length buf' = c" using len2 by (simp add: ca2_def c_def)
        then show "(e + k) mod length buf' = (e0 + k) mod length buf'"
          using e0 by (simp add: mod_add_left_eq)
      qed
      then show ?thesis
        unfolding split ring_write_append seg1 lk sb by simp
    qed
    have eef: "unat (source_buffer_end ca') = (e + n - 1) mod c + 1"
    proof (cases "n - k = 0")
      case True
      then have nk: "k = n" using k_le by simp
      have "(e + n - 1) mod c = (e + (n - 1)) mod c" using False by simp
      also have "\<dots> = (e0 + (n - 1)) mod c" using e0 by (simp add: mod_add_left_eq)
      also have "\<dots> = e0 + (n - 1)" using k_le nk False by simp
      finally show ?thesis using ee True nk False by simp
    next
      case nz: False
      have "(e + n - 1) mod c = (e + (n - 1)) mod c" using False by simp
      also have "\<dots> = (e0 + (n - 1)) mod c" using e0 by (simp add: mod_add_left_eq)
      also have "e0 + (n - 1) = e0 + k + (n - k) - 1" using k_le kpos by simp
      finally show ?thesis using ee nz by simp
    qed
    have segs_ok: "\<forall>x\<in>set (k # segs2). 0 < x \<and> x \<le> c"
      using sg kpos k_le e0_lt by simp
    have sum_ok: "sum_list (k # segs2) = n" using sm k_le by simp
    have len_ok: "length (k # segs2) \<le> n" using ln kpos k_le by simp
    show ?thesis
      unfolding n_def [symmetric] c_def [symmetric] e_def [symmetric]
      apply (rule exI [of _ "k # segs2"])
      apply (rule exI [of _ ca'])
      using step r sbf st eef segs_ok sum_ok len_ok False by simp
  qed
qed

lemma send_char:
  assumes wf: "wf C ca" and au: "unat (audio_size data) = length (audio data)"
  shows "\<exists>ca'.
      coreaudio_output_send C data ca = Some (Inr (0, ca'))
    \<and> source_buffer ca'
        = ring_write (source_buffer ca) (unat (source_buffer_end ca)) (audio data)
    \<and> source_buffer_start ca' = source_buffer_start ca
    \<and> unat (source_buffer_end ca')
        = (if length (audio data) = 0 then unat (source_buffer_end ca)
           else (unat (source_buffer_end ca) + length (audio data) - 1) mod unat C + 1)"
proof -
  have len: "length (source_buffer ca) = unat C" and en: "source_buffer_end ca \<le> C"
    using wf by (simp_all add: wf_def)
  have "source_buffer_start ca < C" using wf by (simp add: wf_def)
  then have pos: "0 < C" by (simp add: word_less_nat_alt)
  have au': "unat (audio_size data) \<le> length (audio data)" using au by simp
  from send_loop_char [OF len pos en _ au', of 0 "[]"]
  obtain segs' ca' where
    "send_loop C data 0 [] ca = Some (Inr (segs', ca'))"
    "source_buffer ca' = ring_write (source_buffer ca) (unat (source_buffer_end ca)) (audio data)"
    "source_buffer_start ca' = source_buffer_start ca"
    "unat (source_buffer_end ca')
        = (if length (audio data) = 0 then unat (source_buffer_end ca)
           else (unat (source_buffer_end ca) + length (audio data) - 1) mod unat C + 1)"
    using au by auto
  then show ?thesis by (simp add: coreaudio_output_send_def)
qed

lemma send_wf:
  assumes wf: "wf C ca" and au: "unat (audio_size data) = length (audio data)"
  shows "\<exists>ca'. coreaudio_output_send C data ca = Some (Inr (0, ca')) \<and> wf C ca'"
proof -
  from send_char [OF wf au] obtain ca' where
    r: "coreaudio_output_send C data ca = Some (Inr (0, ca'))"
    and sb: "source_buffer ca'
        = ring_write (source_buffer ca) (unat (source_buffer_end ca)) (audio data)"
    and st: "source_buffer_start ca' = source_buffer_start ca"
    and ee: "unat (source_buffer_end ca')
        = (if length (audio data) = 0 then unat (source_buffer_end ca)
           else (unat (source_buffer_end ca) + length (audio data) - 1) mod unat C + 1)"
    by blast
  have c: "0 < unat C" "unat (source_buffer_end ca) \<le> unat C"
    using wf by (auto simp add: wf_def word_less_nat_alt word_le_nat_alt)
  have "unat (source_buffer_end ca') \<le> unat C"
    using ee c mod_less_divisor [of "unat C" "unat (source_buffer_end ca) + length (audio data) - 1"]
    by (simp add: Suc_le_eq split: if_splits)
  then have "wf C ca'"
    using wf sb st by (simp add: wf_def word_le_nat_alt)
  then show ?thesis using r by blast
qed

lemma callback_wf:
  assumes wf: "wf C ca"
    and len: "length (mAudioData buffer) = unat (mAudioDataBytesCapacity buffer)"
  shows "\<exists>buffer' ca'. audio_queue_output_callback C buffer ca = Inr (buffer', ca')
    \<and> wf C ca'
    \<and> length (mAudioData buffer') = unat (mAudioDataBytesCapacity buffer')
    \<and> mAudioDataBytesCapacity buffer' = mAudioDataBytesCapacity buffer"
proof -
  from callback_char [OF wf len] obtain b' ca' where
    r: "audio_queue_output_callback C buffer ca = Inr (b', ca')"
    and d: "mAudioData b'
        = ring_read (source_buffer ca) (unat (source_buffer_start ca))
            (min (unat (mAudioDataBytesCapacity buffer)) (copyable C ca))
          @ replicate (unat (mAudioDataBytesCapacity buffer) - copyable C ca) 0"
    and cp: "mAudioDataBytesCapacity b' = mAudioDataBytesCapacity buffer"
    and sb: "source_buffer ca' = source_buffer ca"
    and st: "unat (source_buffer_start ca')
        = (unat (source_buffer_start ca)
           + min (unat (mAudioDataBytesCapacity buffer)) (copyable C ca)) mod unat C"
    and en: "source_buffer_end ca'
        = (if source_buffer_end ca = C
              \<and> unat C \<le> unat (source_buffer_start ca) + unat (mAudioDataBytesCapacity buffer)
           then 0 else source_buffer_end ca)"
    by blast
  have c: "0 < unat C" using wf by (auto simp add: wf_def word_less_nat_alt)
  then have "unat (source_buffer_start ca') < unat C" using st by simp
  moreover have "source_buffer_end ca' \<le> C" using en wf by (simp add: wf_def)
  ultimately have "wf C ca'" using wf sb by (simp add: wf_def word_less_nat_alt)
  moreover have "length (mAudioData b') = unat (mAudioDataBytesCapacity b')"
    using d cp by (simp add: min_def)
  ultimately show ?thesis using r cp by blast
qed

section \<open>The reader's view of the storage\<close>

lemma ring_read_take: "take m (ring_read buf p n) = ring_read buf p (min m n)"
  by (rule nth_equalityI) (simp_all add: ring_read_def)

lemma ring_read_drop: "drop m (ring_read buf p n) = ring_read buf (p + m) (n - m)"
proof (rule nth_equalityI)
  show "length (drop m (ring_read buf p n)) = length (ring_read buf (p + m) (n - m))"
    by simp
next
  fix i assume "i < length (drop m (ring_read buf p n))"
  then have "m + i < n" "i < n - m" by simp_all
  then show "drop m (ring_read buf p n) ! i = ring_read buf (p + m) (n - m) ! i"
    by (simp add: ring_read_def add.assoc)
qed

lemma mod_add_distinct:
  fixes s j k c :: nat
  assumes "j < k" "k < j + c"
  shows "(s + j) mod c \<noteq> (s + k) mod c"
proof
  assume "(s + j) mod c = (s + k) mod c"
  then have "(s + k) mod c = (s + j) mod c" by simp
  moreover have "s + j \<le> s + k" using assms by simp
  ultimately have "c dvd (s + k) - (s + j)"
    by (simp add: mod_eq_dvd_iff_nat)
  then have "c dvd k - j" by simp
  moreover have "0 < k - j" "k - j < c" using assms by simp_all
  ultimately show False by (meson dvd_imp_le not_le)
qed

lemma ring_read_update_snoc:
  assumes "length buf = c" "k < c"
  shows "ring_read (buf[(s + k) mod c := x]) s (Suc k) = ring_read buf s k @ [x]"
proof (rule nth_equalityI)
  show "length (ring_read (buf[(s + k) mod c := x]) s (Suc k)) = length (ring_read buf s k @ [x])"
    by simp
next
  fix j assume "j < length (ring_read (buf[(s + k) mod c := x]) s (Suc k))"
  then have j: "j < Suc k" by simp
  have cpos: "0 < c" using assms by simp
  show "ring_read (buf[(s + k) mod c := x]) s (Suc k) ! j = (ring_read buf s k @ [x]) ! j"
  proof (cases "j = k")
    case True
    have "(s + k) mod c < length buf" using assms cpos by simp
    then show ?thesis using True assms by (simp add: ring_read_def nth_append)
  next
    case False
    then have jk: "j < k" using j by simp
    then have "(s + j) mod c \<noteq> (s + k) mod c"
      using assms by (intro mod_add_distinct) simp_all
    then show ?thesis using jk assms by (simp add: ring_read_def nth_append)
  qed
qed

lemma ring_read_update_full:
  assumes "length buf = c" "0 < c"
  shows "ring_read (buf[(s + c) mod c := x]) s (Suc 0) = [x]"
  using assms by (simp add: ring_read_def)

lemma ring_write_snoc:
  "ring_write buf p (ys @ [x]) = (ring_write buf p ys)[(p + length ys) mod length buf := x]"
  by (simp add: ring_write_append)

lemma ring_view_write:
  assumes len: "length buf = c" and k1: "1 \<le> k" and kc: "k \<le> c"
  shows "ring_read (ring_write buf (s + k) xs) s ((k + length xs - 1) mod c + 1)
       = drop (k + length xs - ((k + length xs - 1) mod c + 1)) (ring_read buf s k @ xs)"
proof (induction xs rule: rev_induct)
  case Nil
  have "(k - 1) mod c = k - 1" using k1 kc by simp
  then show ?case using k1 by simp
next
  case (snoc x ys)
  define n where "n = length ys"
  define kk where "kk = (k + n - 1) mod c + 1"
  define buf1 where "buf1 = ring_write buf (s + k) ys"
  define u where "u = ring_read buf s k"
  have cpos: "0 < c" using k1 kc by simp
  have len1: "length buf1 = c" using len by (simp add: buf1_def)
  have ih: "ring_read buf1 s kk = drop (k + n - kk) (u @ ys)"
    using snoc.IH by (simp add: buf1_def kk_def n_def u_def)
  have kk_le: "kk \<le> c" using cpos by (simp add: kk_def Suc_le_eq)
  have kk_le2: "kk \<le> k + n"
  proof -
    have "(k + n - 1) mod c \<le> k + n - 1" by simp
    moreover have "0 < k + n" using k1 by simp
    ultimately show ?thesis unfolding kk_def by linarith
  qed
  have pos: "(s + k + n) mod c = (s + kk) mod c"
  proof -
    have "(s + kk) mod c = (Suc s + (k + n - 1) mod c) mod c" by (simp add: kk_def)
    also have "\<dots> = (Suc s + (k + n - 1)) mod c" by (rule mod_add_right_eq)
    also have "Suc s + (k + n - 1) = s + k + n" using k1 by simp
    finally show ?thesis by simp
  qed
  have wr: "ring_write buf (s + k) (ys @ [x]) = buf1[(s + kk) mod c := x]"
    using pos len by (simp add: ring_write_snoc buf1_def n_def)
  have suc: "(k + n) mod c = (if kk = c then 0 else kk)"
  proof -
    have "Suc (k + n - 1) mod c = (if Suc ((k + n - 1) mod c) = c then 0 else Suc ((k + n - 1) mod c))"
      by (rule mod_Suc)
    moreover have "Suc (k + n - 1) = k + n" using k1 by simp
    ultimately show ?thesis by (simp add: kk_def)
  qed
  have lu: "length (u @ ys) = k + n" by (simp add: u_def n_def)
  show ?case
  proof (cases "kk = c")
    case True
    then have k1': "(k + length (ys @ [x]) - 1) mod c + 1 = Suc 0"
      using suc by (simp add: n_def)
    have "ring_read (buf1[(s + c) mod c := x]) s (Suc 0) = [x]"
      using len1 cpos by (rule ring_read_update_full)
    moreover have "drop (k + n) (u @ ys @ [x]) = [x]" using lu by simp
    ultimately show ?thesis
      unfolding k1' wr True u_def [symmetric] by (simp add: n_def)
  next
    case False
    then have kk_lt: "kk < c" using kk_le by simp
    have k1': "(k + length (ys @ [x]) - 1) mod c + 1 = Suc kk"
      using suc False by (simp add: n_def)
    have "ring_read (buf1[(s + kk) mod c := x]) s (Suc kk) = ring_read buf1 s kk @ [x]"
      using len1 kk_lt by (rule ring_read_update_snoc)
    also have "\<dots> = drop (k + n - kk) (u @ ys) @ [x]" using ih by simp
    also have "\<dots> = drop (k + n - kk) (u @ ys @ [x])" using lu by simp
    finally show ?thesis
      unfolding k1' wr u_def [symmetric] using kk_le2 by (simp add: n_def)
  qed
qed


lemma wf_nat:
  assumes "wf C ca"
  shows "length (source_buffer ca) = unat C"
    and "unat (source_buffer_start ca) < unat C"
    and "unat (source_buffer_end ca) \<le> unat C"
  using assms by (simp_all add: wf_def word_less_nat_alt word_le_nat_alt)

lemma copyable_bounds:
  assumes "wf C ca"
  shows "1 \<le> copyable C ca" and "copyable C ca \<le> unat C"
  using wf_nat [OF assms] by (auto simp add: copyable_def word_less_nat_alt)

lemma copyable_mod:
  assumes "wf C ca"
  shows "(unat (source_buffer_start ca) + copyable C ca) mod unat C
       = unat (source_buffer_end ca) mod unat C"
proof (cases "source_buffer_start ca < source_buffer_end ca")
  case True
  then show ?thesis by (simp add: copyable_def word_less_nat_alt)
next
  case False
  have "unat (source_buffer_start ca) + (unat C - unat (source_buffer_start ca)
          + unat (source_buffer_end ca)) = unat C + unat (source_buffer_end ca)"
    using wf_nat [OF assms] by simp
  then show ?thesis using False by (simp add: copyable_def)
qed

lemma copyable_unique:
  assumes wf: "wf C ca" and k1: "1 \<le> k" and kc: "k \<le> unat C"
    and md: "(unat (source_buffer_start ca) + k) mod unat C
           = unat (source_buffer_end ca) mod unat C"
  shows "copyable C ca = k"
proof (rule ccontr)
  assume ne: "copyable C ca \<noteq> k"
  define s where "s = unat (source_buffer_start ca)"
  define c where "c = unat C"
  define k' where "k' = copyable C ca"
  have eq: "(s + k) mod c = (s + k') mod c"
    using md copyable_mod [OF wf] by (simp add: s_def c_def k'_def)
  have b: "1 \<le> k'" "k' \<le> c"
    using copyable_bounds [OF wf] by (simp_all add: k'_def c_def)
  show False
  proof (cases "k < k'")
    case True
    then have "(s + k) mod c \<noteq> (s + k') mod c"
      using b k1 by (intro mod_add_distinct) simp_all
    then show False using eq by simp
  next
    case False
    then have "k' < k" using ne by (simp add: k'_def)
    then have "(s + k') mod c \<noteq> (s + k) mod c"
      using b k1 kc by (intro mod_add_distinct) (simp_all add: c_def)
    then show False using eq by simp
  qed
qed

lemma callback_view:
  assumes wf: "wf C ca"
    and len: "length (mAudioData buffer) = unat (mAudioDataBytesCapacity buffer)"
  shows "\<exists>buffer' ca'.
      audio_queue_output_callback C buffer ca = Inr (buffer', ca')
    \<and> mAudioData buffer'
        = take (unat (mAudioDataBytesCapacity buffer)) (unread C ca)
          @ replicate (unat (mAudioDataBytesCapacity buffer) - copyable C ca) 0
    \<and> wf C ca'
    \<and> length (mAudioData buffer') = unat (mAudioDataBytesCapacity buffer')
    \<and> mAudioDataBytesCapacity buffer' = mAudioDataBytesCapacity buffer
    \<and> (unat (mAudioDataBytesCapacity buffer) < copyable C ca \<longrightarrow>
          copyable C ca' = copyable C ca - unat (mAudioDataBytesCapacity buffer)
        \<and> unread C ca' = drop (unat (mAudioDataBytesCapacity buffer)) (unread C ca))"
proof -
  define B where "B = unat (mAudioDataBytesCapacity buffer)"
  define k where "k = copyable C ca"
  define s where "s = unat (source_buffer_start ca)"
  define c where "c = unat C"
  from callback_char [OF wf len] obtain b' ca' where
    r: "audio_queue_output_callback C buffer ca = Inr (b', ca')"
    and d: "mAudioData b' = ring_read (source_buffer ca) s (min B k) @ replicate (B - k) 0"
    and cp: "mAudioDataBytesCapacity b' = mAudioDataBytesCapacity buffer"
    and sb: "source_buffer ca' = source_buffer ca"
    and st: "unat (source_buffer_start ca') = (s + min B k) mod c"
    and en: "source_buffer_end ca'
        = (if source_buffer_end ca = C \<and> c \<le> s + B then 0 else source_buffer_end ca)"
    unfolding B_def k_def s_def c_def by blast
  from callback_wf [OF wf len] r have wf': "wf C ca'" by auto
  have lenb: "length (source_buffer ca) = c" and cpos: "0 < c"
    using wf_nat [OF wf] by (simp_all add: c_def)
  have d': "mAudioData b' = take B (unread C ca) @ replicate (B - k) 0"
    using d by (simp add: unread_def ring_read_take s_def k_def)
  have lb: "length (mAudioData b') = unat (mAudioDataBytesCapacity b')"
    using d cp by (simp add: B_def min_def)
  have rest: "copyable C ca' = k - B \<and> unread C ca' = drop B (unread C ca)" if lt: "B < k"
  proof -
    have em: "unat (source_buffer_end ca') mod c = unat (source_buffer_end ca) mod c"
      using en by (auto simp add: c_def)
    have "(unat (source_buffer_start ca') + (k - B)) mod c = ((s + B) mod c + (k - B)) mod c"
      using st lt by (simp add: min_def)
    also have "\<dots> = (s + B + (k - B)) mod c" by (rule mod_add_left_eq)
    also have "s + B + (k - B) = s + k" using lt by simp
    also have "(s + k) mod c = unat (source_buffer_end ca) mod c"
      using copyable_mod [OF wf] by (simp add: s_def k_def c_def)
    finally have md: "(unat (source_buffer_start ca') + (k - B)) mod unat C
        = unat (source_buffer_end ca') mod unat C"
      using em by (simp add: c_def)
    have kb: "1 \<le> k - B" "k - B \<le> unat C"
      using lt copyable_bounds [OF wf] by (simp_all add: k_def)
    have ck: "copyable C ca' = k - B"
      using wf' kb md by (rule copyable_unique)
    have "unread C ca' = ring_read (source_buffer ca) ((s + B) mod c) (k - B)"
      using ck sb st lt by (simp add: unread_def min_def)
    also have "\<dots> = ring_read (source_buffer ca) (s + B) (k - B)"
      using ring_read_mod [of "source_buffer ca" "s + B" "k - B"] lenb by simp
    also have "\<dots> = drop B (unread C ca)"
      by (simp add: unread_def ring_read_drop s_def k_def)
    finally show ?thesis using ck by simp
  qed
  show ?thesis
    unfolding B_def [symmetric] k_def [symmetric]
    using r d' wf' lb cp rest by auto
qed

lemma feeds_total:
  assumes "wf C ca"
    and "length (mAudioData buffer) = unat (mAudioDataBytesCapacity buffer)"
  shows "\<exists>blocks buffer' ca'. feeds C buffer m ca = Inr (blocks, buffer', ca')"
  using assms
proof (induction m arbitrary: buffer ca)
  case 0
  then show ?case by simp
next
  case (Suc m)
  from callback_wf [OF Suc.prems] obtain b1 ca1 where
    r: "audio_queue_output_callback C buffer ca = Inr (b1, ca1)"
    and w: "wf C ca1"
    and l: "length (mAudioData b1) = unat (mAudioDataBytesCapacity b1)"
    by blast
  from Suc.IH [OF w l] obtain blocks b2 ca2 where
    "feeds C b1 m ca1 = Inr (blocks, b2, ca2)" by blast
  then show ?case using r by (simp add: and_then_def)
qed

lemma feeds_prefix:
  assumes "wf C ca"
    and "length (mAudioData buffer) = unat (mAudioDataBytesCapacity buffer)"
    and "copyable C ca \<le> m * unat (mAudioDataBytesCapacity buffer)"
  shows "\<exists>blocks buffer' ca'.
      feeds C buffer m ca = Inr (blocks, buffer', ca')
    \<and> take (copyable C ca) (concat blocks) = unread C ca"
  using assms
proof (induction m arbitrary: buffer ca)
  case 0
  then show ?case using copyable_bounds [OF "0.prems"(1)] by simp
next
  case (Suc m)
  define B where "B = unat (mAudioDataBytesCapacity buffer)"
  define k where "k = copyable C ca"
  define u where "u = unread C ca"
  have lu: "length u = k" by (simp add: u_def k_def unread_def)
  from callback_view [OF Suc.prems(1,2)] obtain b1 ca1 where
    r: "audio_queue_output_callback C buffer ca = Inr (b1, ca1)"
    and d: "mAudioData b1 = take B u @ replicate (B - k) 0"
    and w: "wf C ca1"
    and l: "length (mAudioData b1) = unat (mAudioDataBytesCapacity b1)"
    and cp: "mAudioDataBytesCapacity b1 = mAudioDataBytesCapacity buffer"
    and rest: "B < k \<longrightarrow> copyable C ca1 = k - B \<and> unread C ca1 = drop B u"
    unfolding B_def k_def u_def by blast
  show ?case
  proof (cases "B < k")
    case True
    have "copyable C ca1 \<le> m * unat (mAudioDataBytesCapacity b1)"
      using True rest Suc.prems(3) cp by (simp add: B_def k_def)
    from Suc.IH [OF w l this] obtain blocks b2 ca2 where
      f: "feeds C b1 m ca1 = Inr (blocks, b2, ca2)"
      and t: "take (k - B) (concat blocks) = drop B u"
      using True rest by auto
    have "take k (mAudioData b1 @ concat blocks) = take B u @ take (k - B) (concat blocks)"
      using True d lu by simp
    also have "\<dots> = u" using t by simp
    finally show ?thesis
      unfolding k_def [symmetric] u_def [symmetric]
      using r f by (simp add: and_then_def)
  next
    case False
    from feeds_total [OF w l] obtain blocks b2 ca2 where
      f: "feeds C b1 m ca1 = Inr (blocks, b2, ca2)" by blast
    have "take k (mAudioData b1 @ concat blocks) = u"
      using False d lu by simp
    then show ?thesis
      unfolding k_def [symmetric] u_def [symmetric]
      using r f by (simp add: and_then_def)
  qed
qed

section \<open>The effect of sending on the reader's view\<close>

lemma send_zero:
  "audio_size data = 0 \<Longrightarrow> coreaudio_output_send C data ca = Some (Inr (0, ca))"
  by (subst coreaudio_output_send_def, subst send_loop.simps) simp

lemma suc_mod_shift:
  fixes a b c :: nat
  assumes "1 \<le> b"
  shows "(a + ((b - 1) mod c + 1)) mod c = (a + b) mod c"
proof -
  have "(a + ((b - 1) mod c + 1)) mod c = (Suc a + (b - 1) mod c) mod c" by simp
  also have "\<dots> = (Suc a + (b - 1)) mod c" by (rule mod_add_right_eq)
  also have "Suc a + (b - 1) = a + b" using assms by simp
  finally show ?thesis .
qed

lemma send_view:
  assumes wf: "wf C ca"
    and au: "unat (audio_size data) = length (audio data)"
    and pos: "0 < length (audio data)"
  shows "\<exists>ca'.
      coreaudio_output_send C data ca = Some (Inr (0, ca'))
    \<and> wf C ca'
    \<and> source_buffer_start ca' = source_buffer_start ca
    \<and> copyable C ca' = (copyable C ca + length (audio data) - 1) mod unat C + 1
    \<and> unread C ca'
        = drop (copyable C ca + length (audio data)
                 - ((copyable C ca + length (audio data) - 1) mod unat C + 1))
            (unread C ca @ audio data)"
proof -
  define s where "s = unat (source_buffer_start ca)"
  define e where "e = unat (source_buffer_end ca)"
  define c where "c = unat C"
  define k where "k = copyable C ca"
  define n where "n = length (audio data)"
  define k' where "k' = (k + n - 1) mod c + 1"
  from send_char [OF wf au] obtain ca' where
    r: "coreaudio_output_send C data ca = Some (Inr (0, ca'))"
    and sb: "source_buffer ca' = ring_write (source_buffer ca) e (audio data)"
    and st: "source_buffer_start ca' = source_buffer_start ca"
    and ee: "unat (source_buffer_end ca') = (e + n - 1) mod c + 1"
    using pos unfolding e_def c_def n_def by auto
  from send_wf [OF wf au] r have wf': "wf C ca'" by auto
  have lenb: "length (source_buffer ca) = c" and cpos: "0 < c"
    using wf_nat [OF wf] by (simp_all add: c_def)
  have kb: "1 \<le> k" "k \<le> c"
    using copyable_bounds [OF wf] by (simp_all add: k_def c_def)
  have km: "(s + k) mod c = e mod c"
    using copyable_mod [OF wf] by (simp add: s_def k_def c_def e_def)
  have npos: "1 \<le> n" using pos by (simp add: n_def Suc_le_eq)
  have k'b: "1 \<le> k'" "k' \<le> unat C"
    using cpos by (simp_all add: k'_def c_def Suc_le_eq)
  have "(s + k') mod c = (s + (k + n)) mod c"
    unfolding k'_def using kb suc_mod_shift [of "k + n" s c] by simp
  also have "\<dots> = ((s + k) mod c + n) mod c"
    by (simp add: mod_add_left_eq add.assoc)
  also have "\<dots> = (e + n) mod c"
    unfolding km by (simp add: mod_add_left_eq)
  also have "\<dots> = (0 + ((e + n - 1) mod c + 1)) mod c"
    using npos suc_mod_shift [of "e + n" 0 c] by simp
  finally have md: "(unat (source_buffer_start ca') + k') mod unat C
      = unat (source_buffer_end ca') mod unat C"
    using st ee by (simp add: s_def c_def)
  have ck: "copyable C ca' = k'"
    using wf' k'b md by (rule copyable_unique)
  have "ring_write (source_buffer ca) e (audio data)
      = ring_write (source_buffer ca) (s + k) (audio data)"
    using km lenb by (intro ring_write_cong_pos) simp
  then have "unread C ca' = ring_read (ring_write (source_buffer ca) (s + k) (audio data)) s k'"
    using ck sb st by (simp add: unread_def s_def)
  also have "\<dots> = drop (k + n - k') (ring_read (source_buffer ca) s k @ audio data)"
    unfolding k'_def n_def using lenb kb by (rule ring_view_write)
  finally have ur: "unread C ca' = drop (k + n - k') (unread C ca @ audio data)"
    by (simp add: unread_def s_def k_def)
  show ?thesis
    unfolding k_def [symmetric] n_def [symmetric] c_def [symmetric] k'_def [symmetric]
    using r wf' st ck ur by blast
qed

lemma sends_view:
  assumes "wf C ca"
    and "\<forall>d\<in>set ds. unat (audio_size d) = length (audio d)"
  shows "\<exists>ca'.
      sends C ds ca = Some (Inr ca')
    \<and> wf C ca'
    \<and> source_buffer_start ca' = source_buffer_start ca
    \<and> (if length (concat (map audio ds)) = 0 then ca' = ca
        else copyable C ca'
               = (copyable C ca + length (concat (map audio ds)) - 1) mod unat C + 1
           \<and> unread C ca'
               = drop (copyable C ca + length (concat (map audio ds))
                        - ((copyable C ca + length (concat (map audio ds)) - 1) mod unat C + 1))
                   (unread C ca @ concat (map audio ds)))"
  using assms
proof (induction ds arbitrary: ca)
  case Nil
  then show ?case by simp
next
  case (Cons d ds)
  define c where "c = unat C"
  define k where "k = copyable C ca"
  define u where "u = unread C ca"
  define n where "n = length (audio d)"
  define T where "T = length (concat (map audio ds))"
  have au: "unat (audio_size d) = length (audio d)"
    and aus: "\<forall>d\<in>set ds. unat (audio_size d) = length (audio d)"
    using Cons.prems(2) by simp_all
  have lu: "length u = k" by (simp add: u_def k_def unread_def)
  have kb: "1 \<le> k" using copyable_bounds [OF Cons.prems(1)] by (simp add: k_def)
  show ?case
  proof (cases "n = 0")
    case True
    then have "audio_size d = 0" using au by (simp add: n_def unat_eq_0)
    then have r: "coreaudio_output_send C d ca = Some (Inr (0, ca))" by (rule send_zero)
    have e: "concat (map audio (d # ds)) = concat (map audio ds)"
      using True by (simp add: n_def)
    have s: "sends C (d # ds) ca = sends C ds ca" using r by simp
    show ?thesis unfolding e s by (rule Cons.IH [OF Cons.prems(1) aus])
  next
    case False
    then have pos: "0 < length (audio d)" by (simp add: n_def)
    define k1 where "k1 = (k + n - 1) mod c + 1"
    from send_view [OF Cons.prems(1) au pos] obtain ca1 where
      r: "coreaudio_output_send C d ca = Some (Inr (0, ca1))"
      and w1: "wf C ca1"
      and st1: "source_buffer_start ca1 = source_buffer_start ca"
      and ck1: "copyable C ca1 = k1"
      and ur1: "unread C ca1 = drop (k + n - k1) (u @ audio d)"
      unfolding k_def [symmetric] n_def [symmetric] c_def [symmetric] u_def [symmetric]
        k1_def [symmetric]
      by blast
    have k1_le: "k1 \<le> k + n"
    proof -
      have "(k + n - 1) mod c \<le> k + n - 1" by simp
      moreover have "0 < k + n" using kb by simp
      ultimately show ?thesis unfolding k1_def by linarith
    qed
    define rest where "rest = concat (map audio ds)"
    have lrest: "length rest = T" by (simp add: rest_def T_def)
    from Cons.IH [OF w1 aus] obtain ca' where
      rs: "sends C ds ca1 = Some (Inr ca')"
      and w': "wf C ca'"
      and st': "source_buffer_start ca' = source_buffer_start ca1"
      and v: "if T = 0 then ca' = ca1
              else copyable C ca' = (k1 + T - 1) mod c + 1
                 \<and> unread C ca'
                     = drop (k1 + T - ((k1 + T - 1) mod c + 1)) (unread C ca1 @ rest)"
      unfolding ck1 rest_def [symmetric] lrest c_def [symmetric] by blast
    have run: "sends C (d # ds) ca = Some (Inr ca')"
      using r rs by simp
    have tot: "length (concat (map audio (d # ds))) = n + T"
      by (simp add: n_def T_def)
    have nz: "n + T \<noteq> 0" using False by simp
    show ?thesis
    proof (cases "T = 0")
      case True
      then have "ca' = ca1" using v by simp
      then have run1: "sends C (d # ds) ca = Some (Inr ca1)" using run by simp
      have e: "concat (map audio (d # ds)) = audio d" using True by (simp add: T_def)
      have nz1: "length (audio d) \<noteq> 0" using False by (simp add: n_def)
      show ?thesis
        unfolding e
        apply (rule exI [of _ ca1])
        using run1 w1 st1 ck1 ur1 nz1
        unfolding k1_def k_def n_def c_def u_def by simp
    next
      case Tpos: False
      define k2 where "k2 = (k + (n + T) - 1) mod c + 1"
      have k2: "(k1 + T - 1) mod c + 1 = k2"
      proof -
        have "k1 + T - 1 = (k + n - 1) mod c + T" by (simp add: k1_def)
        then have "(k1 + T - 1) mod c = ((k + n - 1) mod c + T) mod c" by simp
        also have "\<dots> = (k + n - 1 + T) mod c" by (rule mod_add_left_eq)
        also have "k + n - 1 + T = k + (n + T) - 1" using kb by simp
        finally show ?thesis by (simp add: k2_def)
      qed
      have k2_le: "k2 \<le> k1 + T"
      proof -
        have "(k1 + T - 1) mod c \<le> k1 + T - 1" by simp
        moreover have "0 < k1 + T" using Tpos by simp
        ultimately show ?thesis unfolding k2 [symmetric] by linarith
      qed
      have ck: "copyable C ca' = k2" using v Tpos k2 by (simp del: drop_append)
      define W where "W = (u @ audio d) @ rest"
      have "unread C ca' = drop (k1 + T - k2) (unread C ca1 @ rest)"
        using v Tpos k2 by (simp del: drop_append)
      also have "unread C ca1 @ rest = drop (k + n - k1) W"
        unfolding ur1 W_def using lu by (simp add: n_def)
      also have "drop (k1 + T - k2) (drop (k + n - k1) W) = drop (k1 + T - k2 + (k + n - k1)) W"
        by (rule drop_drop)
      also have "k1 + T - k2 + (k + n - k1) = k + (n + T) - k2"
        using k1_le k2_le by linarith
      finally have ur: "unread C ca' = drop (k + (n + T) - k2) (u @ concat (map audio (d # ds)))"
        by (simp add: W_def rest_def del: drop_append)
      show ?thesis
        unfolding tot k_def [symmetric] c_def [symmetric] u_def [symmetric] k2_def [symmetric]
        using run w' st' st1 ck ur Tpos by (simp del: drop_append)
    qed
  qed
qed

section \<open>The printed occupancy and the start-up calls\<close>

text \<open>
  The number the source prints as "data in buffer" and the number of bytes its copy
  logic takes to be present agree except when the two cursors are equal: the printed
  number is then 0, while the copy logic proceeds as if the whole storage were unread.
\<close>

lemma data_in_buffer_nat:
  assumes wf: "wf C ca" and small: "unat C < 2 ^ 31"
  shows "unat (data_in_buffer C ca)
       = (if source_buffer_start ca = source_buffer_end ca then 0 else copyable C ca)"
proof -
  define s where "s = unat (source_buffer_start ca)"
  define e where "e = unat (source_buffer_end ca)"
  define c where "c = unat C"
  define d where "d = C + source_buffer_end ca - source_buffer_start ca"
  have b: "s < c" "e \<le> c" using wf_nat [OF wf] by (simp_all add: s_def e_def c_def)
  have ce: "unat (C + source_buffer_end ca) = c + e"
  proof -
    have "unat C + unat (source_buffer_end ca) < 2 ^ LENGTH(32)"
      using small b by (simp add: e_def c_def)
    then show ?thesis by (simp add: unat_add_lem [THEN iffD1] c_def e_def)
  qed
  have "source_buffer_start ca \<le> C + source_buffer_end ca"
    using ce b by (simp add: word_le_nat_alt s_def)
  then have dn: "unat d = c + e - s"
    using ce by (simp add: d_def unat_sub s_def)
  have ge: "d \<ge> C \<longleftrightarrow> s \<le> e"
    using dn b by (auto simp add: word_le_nat_alt c_def)
  have sub: "unat (d - C) = e - s" if "s \<le> e"
  proof -
    have "C \<le> d" using ge that by simp
    then have "unat (d - C) = unat d - unat C" by (rule unat_sub)
    then show ?thesis using dn that by (simp add: c_def)
  qed
  have eq: "source_buffer_start ca = source_buffer_end ca \<longleftrightarrow> s = e"
    by (simp add: word_unat_eq_iff s_def e_def)
  have lt: "source_buffer_start ca < source_buffer_end ca \<longleftrightarrow> s < e"
    by (simp add: word_less_nat_alt s_def e_def)
  show ?thesis
  proof (cases "s \<le> e")
    case True
    then have "unat (data_in_buffer C ca) = e - s"
      using ge sub by (simp add: data_in_buffer_def Let_def d_def [symmetric])
    then show ?thesis using True eq lt
      by (auto simp add: copyable_def s_def [symmetric] e_def [symmetric])
  next
    case False
    then have "unat (data_in_buffer C ca) = c + e - s"
      using ge dn by (simp add: data_in_buffer_def Let_def d_def [symmetric])
    then show ?thesis using False eq lt b
      by (auto simp add: copyable_def s_def [symmetric] e_def [symmetric] c_def [symmetric])
  qed
qed

text \<open>
  \<^verbatim>\<open>coreaudio_output_init\<close> calls the callback once for each of its two blocks
  before any packet has arrived (lines 110-118). On the zeroed record the two blocks are
  silent, but each call advances the read cursor by a block.
\<close>

lemma prefill_advances_read_cursor:
  "feeds 16 (block 4) 2 (ca_data_zeroed 16)
     = Inr ([[0,0,0,0], [0,0,0,0]],
            \<lparr>mAudioDataBytesCapacity = 4, mAudioData = [0,0,0,0], mAudioDataByteSize = 4\<rparr>,
            \<lparr>source_buffer = [0,0,0,0,0,0,0,0,0,0,0,0,0,0,0,0],
             source_buffer_start = 8, source_buffer_end = 0\<rparr>)"
  by code_simp

section \<open>Round trip when the sends start with equal cursors\<close>

text \<open>
  In a state with the three properties above in which the cursors are equal, packets of
  their declared sizes are sent, together no more than the capacity. Then every send
  returns, and the blocks enqueued by \<open>m\<close> callbacks, enough to hold the bytes sent, start
  with exactly the bytes sent, in order. This needs the cursors to be equal when the
  first packet arrives: a callback that ran on the drained storage in between has moved
  the read cursor, and the statement does not cover the state it leaves.
\<close>

lemma round_trip_from_equal_cursors:
  assumes wf: "wf C ca"
    and drained: "source_buffer_start ca = source_buffer_end ca"
    and sizes: "\<forall>d\<in>set ds. unat (audio_size d) = length (audio d)"
    and fits: "length (concat (map audio ds)) \<le> unat C"
    and blk: "length (mAudioData buffer) = unat (mAudioDataBytesCapacity buffer)"
    and enough: "length (concat (map audio ds)) \<le> m * unat (mAudioDataBytesCapacity buffer)"
  shows "\<exists>ca1 blocks buffer' ca2.
      sends C ds ca = Some (Inr ca1)
    \<and> feeds C buffer m ca1 = Inr (blocks, buffer', ca2)
    \<and> take (length (concat (map audio ds))) (concat blocks) = concat (map audio ds)"
proof -
  define T where "T = length (concat (map audio ds))"
  define c where "c = unat C"
  define all where "all = concat (map audio ds)"
  have lall: "length all = T" by (simp add: all_def T_def)
  have k: "copyable C ca = c"
    using drained wf_nat [OF wf] by (simp add: copyable_def c_def)
  have lu: "length (unread C ca) = c" using k by (simp add: unread_def)
  from sends_view [OF wf sizes] obtain ca1 where
    r: "sends C ds ca = Some (Inr ca1)"
    and w1: "wf C ca1"
    and v: "if T = 0 then ca1 = ca
            else copyable C ca1 = (c + T - 1) mod c + 1
               \<and> unread C ca1 = drop (c + T - ((c + T - 1) mod c + 1)) (unread C ca @ all)"
    unfolding k T_def [symmetric] c_def [symmetric] all_def [symmetric] lall by blast
  show ?thesis
  proof (cases "T = 0")
    case True
    from feeds_total [OF w1 blk] obtain blocks b' ca2 where
      f: "feeds C buffer m ca1 = Inr (blocks, b', ca2)" by blast
    have "all = []" using True lall by simp
    then show ?thesis
      unfolding all_def [symmetric] lall using r f True by simp
  next
    case False
    have Tc: "T \<le> c" using fits by (simp add: T_def c_def)
    have "(c + T - 1) mod c = (c + (T - 1)) mod c" using False by simp
    also have "\<dots> = (T - 1) mod c" by (rule mod_add_self1)
    also have "\<dots> = T - 1" using False Tc by (intro mod_less) simp
    finally have k1: "(c + T - 1) mod c + 1 = T" using False by simp
    have ck: "copyable C ca1 = T" using v False k1 by (simp del: drop_append)
    have "unread C ca1 = drop c (unread C ca @ all)"
      using v False k1 by (simp del: drop_append)
    then have ur: "unread C ca1 = all" using lu by simp
    have "copyable C ca1 \<le> m * unat (mAudioDataBytesCapacity buffer)"
      using ck enough by (simp add: T_def)
    from feeds_prefix [OF w1 blk this] obtain blocks b' ca2 where
      f: "feeds C buffer m ca1 = Inr (blocks, b', ca2)"
      and t: "take T (concat blocks) = all"
      unfolding ck ur by blast
    show ?thesis
      unfolding all_def [symmetric] lall using r f t by blast
  qed
qed

lemma round_trip_from_equal_cursors_example:
  "wf 16 (ca_data_zeroed 16)
   \<and> source_buffer_start (ca_data_zeroed 16) = source_buffer_end (ca_data_zeroed 16)
   \<and> unat (audio_size (chunk [1,2,3])) = length (audio (chunk [1,2,3]))
   \<and> unat (audio_size (chunk [4,5,6,7,8])) = length (audio (chunk [4,5,6,7,8]))
   \<and> length (concat (map audio [chunk [1,2,3], chunk [4,5,6,7,8]])) \<le> unat (16 :: uint)
   \<and> length (mAudioData (block 4)) = unat (mAudioDataBytesCapacity (block 4))
   \<and> length (concat (map audio [chunk [1,2,3], chunk [4,5,6,7,8]]))
        \<le> 2 * unat (mAudioDataBytesCapacity (block 4))
   \<and> (\<exists>ca1 blocks buffer' ca2.
        sends 16 [chunk [1,2,3], chunk [4,5,6,7,8]] (ca_data_zeroed 16) = Some (Inr ca1)
      \<and> feeds 16 (block 4) 2 ca1 = Inr (blocks, buffer', ca2)
      \<and> take (length (concat (map audio [chunk [1,2,3], chunk [4,5,6,7,8]]))) (concat blocks)
          = concat (map audio [chunk [1,2,3], chunk [4,5,6,7,8]]))"
proof -
  have h1: "wf 16 (ca_data_zeroed 16)"
    by (simp add: wf_def ca_data_zeroed_def)
  have h2: "source_buffer_start (ca_data_zeroed 16) = source_buffer_end (ca_data_zeroed 16)"
    by (simp add: ca_data_zeroed_def)
  have h3a: "unat (audio_size (chunk [1,2,3])) = length (audio (chunk [1,2,3]))"
    by (simp add: chunk_def)
  have h3b: "unat (audio_size (chunk [4,5,6,7,8])) = length (audio (chunk [4,5,6,7,8]))"
    by (simp add: chunk_def)
  have h3: "\<forall>d\<in>set [chunk [1,2,3], chunk [4,5,6,7,8]]. unat (audio_size d) = length (audio d)"
    using h3a h3b by simp
  have h4: "length (concat (map audio [chunk [1,2,3], chunk [4,5,6,7,8]])) \<le> unat (16 :: uint)"
    by (simp add: chunk_def)
  have h5: "length (mAudioData (block 4)) = unat (mAudioDataBytesCapacity (block 4))"
    by (simp add: block_def)
  have h6: "length (concat (map audio [chunk [1,2,3], chunk [4,5,6,7,8]]))
        \<le> 2 * unat (mAudioDataBytesCapacity (block 4))"
    by (simp add: chunk_def block_def)
  note c = round_trip_from_equal_cursors [OF h1 h2 h3 h4 h5 h6]
  show ?thesis by (intro conjI h1 h2 h3a h3b h4 h5 h6 c)
qed

section \<open>The claims\<close>

text \<open>
  C1. With a storage of 16 bytes and blocks of 4 bytes, starting from the zeroed record
  with both cursors at 0: after sending the 8 bytes 1..8, three callbacks enqueue
  [1,2,3,4], [5,6,7,8] and [0,0,0,0]; after then sending the 20 bytes 9..28, four
  callbacks enqueue [13..16], [17..20], [21..24] and [25..28]. The states between the
  four steps are written out.
\<close>

theorem concrete_scenario:
  "coreaudio_output_send 16 (chunk [1,2,3,4,5,6,7,8]) (ca_data_zeroed 16)
     = Some (Inr (0, \<lparr>source_buffer = [1,2,3,4,5,6,7,8,0,0,0,0,0,0,0,0],
                      source_buffer_start = 0, source_buffer_end = 8\<rparr>))
   \<and> feeds 16 (block 4) 3
        \<lparr>source_buffer = [1,2,3,4,5,6,7,8,0,0,0,0,0,0,0,0],
         source_buffer_start = 0, source_buffer_end = 8\<rparr>
     = Inr ([[1,2,3,4], [5,6,7,8], [0,0,0,0]],
            \<lparr>mAudioDataBytesCapacity = 4, mAudioData = [0,0,0,0], mAudioDataByteSize = 4\<rparr>,
            \<lparr>source_buffer = [1,2,3,4,5,6,7,8,0,0,0,0,0,0,0,0],
             source_buffer_start = 12, source_buffer_end = 8\<rparr>)
   \<and> coreaudio_output_send 16
        (chunk [9,10,11,12,13,14,15,16,17,18,19,20,21,22,23,24,25,26,27,28])
        \<lparr>source_buffer = [1,2,3,4,5,6,7,8,0,0,0,0,0,0,0,0],
         source_buffer_start = 12, source_buffer_end = 8\<rparr>
     = Some (Inr (0, \<lparr>source_buffer = [17,18,19,20,21,22,23,24,25,26,27,28,13,14,15,16],
                      source_buffer_start = 12, source_buffer_end = 12\<rparr>))
   \<and> feeds 16
        \<lparr>mAudioDataBytesCapacity = 4, mAudioData = [0,0,0,0], mAudioDataByteSize = 4\<rparr> 4
        \<lparr>source_buffer = [17,18,19,20,21,22,23,24,25,26,27,28,13,14,15,16],
         source_buffer_start = 12, source_buffer_end = 12\<rparr>
     = Inr ([[13,14,15,16], [17,18,19,20], [21,22,23,24], [25,26,27,28]],
            \<lparr>mAudioDataBytesCapacity = 4, mAudioData = [25,26,27,28], mAudioDataByteSize = 4\<rparr>,
            \<lparr>source_buffer = [17,18,19,20,21,22,23,24,25,26,27,28,13,14,15,16],
             source_buffer_start = 12, source_buffer_end = 12\<rparr>)"
  by code_simp

text \<open>
  C2, as the code has it. In a state with the three properties above in which the two
  cursors differ, let the occupancy be the distance from the read cursor to the write
  cursor when the read cursor is below it, and otherwise the distance from the read
  cursor to the end of the storage plus the write cursor (so a write cursor equal to the
  capacity with the read cursor at 0 means a full storage, not an empty one). If the
  occupancy is less than the capacity of the block, the callback enqueues a block that
  holds the unread bytes in order, followed by zero bytes up to the capacity of the
  block, and the size it reports is that capacity.
\<close>

theorem underrun_fill:
  assumes "wf C ca"
    and "source_buffer_start ca \<noteq> source_buffer_end ca"
    and "length (mAudioData buffer) = unat (mAudioDataBytesCapacity buffer)"
    and "copyable C ca < unat (mAudioDataBytesCapacity buffer)"
  shows "\<exists>buffer' ca'.
      audio_queue_output_callback C buffer ca = Inr (buffer', ca')
    \<and> mAudioData buffer'
        = ring_read (source_buffer ca) (unat (source_buffer_start ca)) (copyable C ca)
          @ replicate (unat (mAudioDataBytesCapacity buffer) - copyable C ca) 0
    \<and> length (mAudioData buffer') = unat (mAudioDataBytesCapacity buffer)
    \<and> mAudioDataByteSize buffer' = mAudioDataBytesCapacity buffer"
proof -
  have m: "min (unat (mAudioDataBytesCapacity buffer)) (copyable C ca) = copyable C ca"
    using assms(4) by simp
  from callback_char [OF assms(1) assms(3)] obtain b' ca' where
    r: "audio_queue_output_callback C buffer ca = Inr (b', ca')"
    and d: "mAudioData b'
        = ring_read (source_buffer ca) (unat (source_buffer_start ca)) (copyable C ca)
          @ replicate (unat (mAudioDataBytesCapacity buffer) - copyable C ca) 0"
    and sz: "mAudioDataByteSize b' = mAudioDataBytesCapacity buffer"
    unfolding m by blast
  have "length (mAudioData b') = unat (mAudioDataBytesCapacity buffer)"
    using d assms(4) by simp
  then show ?thesis using r d sz by blast
qed

theorem underrun_fill_witness:
  "wf 16 \<lparr>source_buffer = [17,18,3,4,5,6,7,8,9,10,11,12,13,14,15,16],
          source_buffer_start = 14, source_buffer_end = 2\<rparr>
   \<and> source_buffer_start \<lparr>source_buffer = [17,18,3,4,5,6,7,8,9,10,11,12,13,14,15,16],
          source_buffer_start = 14, source_buffer_end = 2\<rparr>
       \<noteq> source_buffer_end \<lparr>source_buffer = [17,18,3,4,5,6,7,8,9,10,11,12,13,14,15,16],
          source_buffer_start = 14, source_buffer_end = 2\<rparr>
   \<and> length (mAudioData (block 6)) = unat (mAudioDataBytesCapacity (block 6))
   \<and> copyable 16 \<lparr>source_buffer = [17,18,3,4,5,6,7,8,9,10,11,12,13,14,15,16],
          source_buffer_start = 14, source_buffer_end = 2\<rparr>
       < unat (mAudioDataBytesCapacity (block 6))
   \<and> (\<exists>buffer' ca'.
        audio_queue_output_callback 16 (block 6)
          \<lparr>source_buffer = [17,18,3,4,5,6,7,8,9,10,11,12,13,14,15,16],
           source_buffer_start = 14, source_buffer_end = 2\<rparr> = Inr (buffer', ca')
      \<and> mAudioData buffer' = [15,16,17,18,0,0]
      \<and> mAudioDataByteSize buffer' = 6)"
proof -
  let ?ca = "\<lparr>source_buffer = [17,18,3,4,5,6,7,8,9,10,11,12,13,14,15,16],
          source_buffer_start = 14, source_buffer_end = 2\<rparr> :: coreaudio_output_data"
  have h1: "wf 16 ?ca" by (simp add: wf_def)
  have h2: "source_buffer_start ?ca \<noteq> source_buffer_end ?ca" by simp
  have h3: "length (mAudioData (block 6)) = unat (mAudioDataBytesCapacity (block 6))"
    by (simp add: block_def)
  have k: "copyable 16 ?ca = 4" by (simp add: copyable_def)
  have h4: "copyable 16 ?ca < unat (mAudioDataBytesCapacity (block 6))"
    unfolding k by (simp add: block_def)
  have v: "ring_read (source_buffer ?ca) (unat (source_buffer_start ?ca)) 4 = [15,16,17,18]"
    by (simp add: ring_read_def upt_rec)
  have n: "unat (mAudioDataBytesCapacity (block 6)) - 4 = 2"
    by (simp add: block_def)
  have z: "replicate 2 (0::byte) = [0,0]"
    by (simp add: numeral_2_eq_2)
  have cp: "mAudioDataBytesCapacity (block 6) = 6" by (simp add: block_def)
  from underrun_fill [OF h1 h2 h3 h4]
  obtain b' ca' where
    r: "audio_queue_output_callback 16 (block 6) ?ca = Inr (b', ca')"
    and d0: "mAudioData b'
        = ring_read (source_buffer ?ca) (unat (source_buffer_start ?ca)) (copyable 16 ?ca)
          @ replicate (unat (mAudioDataBytesCapacity (block 6)) - copyable 16 ?ca) 0"
    and sz0: "mAudioDataByteSize b' = mAudioDataBytesCapacity (block 6)"
    by blast
  have d: "mAudioData b' = [15,16,17,18,0,0]"
    using d0 unfolding k v n z by simp
  have sz: "mAudioDataByteSize b' = 6"
    using sz0 unfolding cp .
  have c: "\<exists>buffer' ca'.
        audio_queue_output_callback 16 (block 6) ?ca = Inr (buffer', ca')
      \<and> mAudioData buffer' = [15,16,17,18,0,0]
      \<and> mAudioDataByteSize buffer' = 6"
    using r d sz by blast
  show ?thesis by (intro conjI h1 h2 h3 h4 c)
qed

text \<open>
  C2, as the claim states it, fails. After 16 bytes have been sent into the zeroed
  16-byte storage the read cursor is 0 and the write cursor is 16, so
  \<open>(C + writePos - readPos) mod C\<close> is 0, less than the block size 4; the callback
  enqueues the four unread bytes [1,2,3,4], not four zero bytes.
\<close>

theorem full_storage_has_formula_occupancy_zero:
  "coreaudio_output_send 16 (chunk [1,2,3,4,5,6,7,8,9,10,11,12,13,14,15,16]) (ca_data_zeroed 16)
     = Some (Inr (0, \<lparr>source_buffer = [1,2,3,4,5,6,7,8,9,10,11,12,13,14,15,16],
                      source_buffer_start = 0, source_buffer_end = 16\<rparr>))
   \<and> (unat (16 :: uint) + unat (16 :: uint) - unat (0 :: uint)) mod unat (16 :: uint) = 0
   \<and> audio_queue_output_callback 16 (block 4)
        \<lparr>source_buffer = [1,2,3,4,5,6,7,8,9,10,11,12,13,14,15,16],
         source_buffer_start = 0, source_buffer_end = 16\<rparr>
     = Inr (\<lparr>mAudioDataBytesCapacity = 4, mAudioData = [1,2,3,4], mAudioDataByteSize = 4\<rparr>,
            \<lparr>source_buffer = [1,2,3,4,5,6,7,8,9,10,11,12,13,14,15,16],
             source_buffer_start = 4, source_buffer_end = 16\<rparr>)
   \<and> [1,2,3,4] \<noteq> replicate 4 (0 :: byte)"
  by code_simp




text \<open>
  C4, at an input where it fails. With a 16-byte storage and 4-byte blocks: the bytes 1..8
  are sent into the zeroed record and three callbacks follow; the first two deliver all
  eight bytes, so the storage is drained, and the third finds nothing to deliver. The
  eight bytes 21..28 are sent next, no more than the capacity. The two callbacks that
  follow enqueue [25,26,27,28] and [1,2,3,4]: the bytes 21..24 are not delivered, and
  bytes read long before are delivered again.
\<close>

theorem drain_then_send_loses_bytes:
  "coreaudio_output_send 16 (chunk [1,2,3,4,5,6,7,8]) (ca_data_zeroed 16)
     = Some (Inr (0, \<lparr>source_buffer = [1,2,3,4,5,6,7,8,0,0,0,0,0,0,0,0],
                      source_buffer_start = 0, source_buffer_end = 8\<rparr>))
   \<and> feeds 16 (block 4) 3
        \<lparr>source_buffer = [1,2,3,4,5,6,7,8,0,0,0,0,0,0,0,0],
         source_buffer_start = 0, source_buffer_end = 8\<rparr>
     = Inr ([[1,2,3,4], [5,6,7,8], [0,0,0,0]],
            \<lparr>mAudioDataBytesCapacity = 4, mAudioData = [0,0,0,0], mAudioDataByteSize = 4\<rparr>,
            \<lparr>source_buffer = [1,2,3,4,5,6,7,8,0,0,0,0,0,0,0,0],
             source_buffer_start = 12, source_buffer_end = 8\<rparr>)
   \<and> coreaudio_output_send 16 (chunk [21,22,23,24,25,26,27,28])
        \<lparr>source_buffer = [1,2,3,4,5,6,7,8,0,0,0,0,0,0,0,0],
         source_buffer_start = 12, source_buffer_end = 8\<rparr>
     = Some (Inr (0, \<lparr>source_buffer = [1,2,3,4,5,6,7,8,21,22,23,24,25,26,27,28],
                      source_buffer_start = 12, source_buffer_end = 16\<rparr>))
   \<and> feeds 16
        \<lparr>mAudioDataBytesCapacity = 4, mAudioData = [0,0,0,0], mAudioDataByteSize = 4\<rparr> 2
        \<lparr>source_buffer = [1,2,3,4,5,6,7,8,21,22,23,24,25,26,27,28],
         source_buffer_start = 12, source_buffer_end = 16\<rparr>
     = Inr ([[25,26,27,28], [1,2,3,4]],
            \<lparr>mAudioDataBytesCapacity = 4, mAudioData = [1,2,3,4], mAudioDataByteSize = 4\<rparr>,
            \<lparr>source_buffer = [1,2,3,4,5,6,7,8,21,22,23,24,25,26,27,28],
             source_buffer_start = 4, source_buffer_end = 0\<rparr>)
   \<and> take 8 (concat [[25,26,27,28], [1,2,3,4 :: byte]]) \<noteq> [21,22,23,24,25,26,27,28]"
  by code_simp

text \<open>
  C5, at an input where it fails. With a 16-byte storage and 4-byte blocks: 16 bytes are
  sent and four callbacks read them all; both cursors are then 0 and the number the
  source prints as "data in buffer" is 0. The next callback copies four bytes from the
  storage, [1,2,3,4], advances the read cursor to 4 and fills nothing with zeros.
\<close>

theorem empty_buffer_replays_storage:
  "coreaudio_output_send 16 (chunk [1,2,3,4,5,6,7,8,9,10,11,12,13,14,15,16]) (ca_data_zeroed 16)
     = Some (Inr (0, \<lparr>source_buffer = [1,2,3,4,5,6,7,8,9,10,11,12,13,14,15,16],
                      source_buffer_start = 0, source_buffer_end = 16\<rparr>))
   \<and> feeds 16 (block 4) 4
        \<lparr>source_buffer = [1,2,3,4,5,6,7,8,9,10,11,12,13,14,15,16],
         source_buffer_start = 0, source_buffer_end = 16\<rparr>
     = Inr ([[1,2,3,4], [5,6,7,8], [9,10,11,12], [13,14,15,16]],
            \<lparr>mAudioDataBytesCapacity = 4, mAudioData = [13,14,15,16], mAudioDataByteSize = 4\<rparr>,
            \<lparr>source_buffer = [1,2,3,4,5,6,7,8,9,10,11,12,13,14,15,16],
             source_buffer_start = 0, source_buffer_end = 0\<rparr>)
   \<and> data_in_buffer 16
        \<lparr>source_buffer = [1,2,3,4,5,6,7,8,9,10,11,12,13,14,15,16],
         source_buffer_start = 0, source_buffer_end = 0\<rparr> = 0
   \<and> audio_queue_output_callback 16
        \<lparr>mAudioDataBytesCapacity = 4, mAudioData = [13,14,15,16], mAudioDataByteSize = 4\<rparr>
        \<lparr>source_buffer = [1,2,3,4,5,6,7,8,9,10,11,12,13,14,15,16],
         source_buffer_start = 0, source_buffer_end = 0\<rparr>
     = Inr (\<lparr>mAudioDataBytesCapacity = 4, mAudioData = [1,2,3,4], mAudioDataByteSize = 4\<rparr>,
            \<lparr>source_buffer = [1,2,3,4,5,6,7,8,9,10,11,12,13,14,15,16],
             source_buffer_start = 4, source_buffer_end = 0\<rparr>)"
  by code_simp

text \<open>
  C6, as the code has it. From a state in which the storage has its size, the read
  cursor is below the capacity and the write cursor is at most the capacity, a callback
  on a block of its declared capacity and a send of a packet of its declared size both
  return, and leave a state with the same three properties: the read cursor stays
  strictly below the capacity, the write cursor stays at most equal to it.
\<close>

theorem cursors_stay_in_bounds:
  assumes "wf C ca"
  shows "(length (mAudioData buffer) = unat (mAudioDataBytesCapacity buffer) \<longrightarrow>
            (\<exists>buffer' ca'. audio_queue_output_callback C buffer ca = Inr (buffer', ca')
                \<and> wf C ca'))
       \<and> (unat (audio_size data) = length (audio data) \<longrightarrow>
            (\<exists>ca'. coreaudio_output_send C data ca = Some (Inr (0, ca')) \<and> wf C ca'))"
  using callback_wf [OF assms] send_wf [OF assms] by blast

theorem cursors_stay_in_bounds_witness:
  "wf 16 (ca_data_zeroed 16)
   \<and> length (mAudioData (block 4)) = unat (mAudioDataBytesCapacity (block 4))
   \<and> unat (audio_size (chunk [1,2,3])) = length (audio (chunk [1,2,3]))
   \<and> (\<exists>buffer' ca'. audio_queue_output_callback 16 (block 4) (ca_data_zeroed 16)
          = Inr (buffer', ca') \<and> wf 16 ca')
   \<and> (\<exists>ca'. coreaudio_output_send 16 (chunk [1,2,3]) (ca_data_zeroed 16)
          = Some (Inr (0, ca')) \<and> wf 16 ca')"
proof -
  have h1: "wf 16 (ca_data_zeroed 16)"
    by (simp add: wf_def ca_data_zeroed_def)
  have h2: "length (mAudioData (block 4)) = unat (mAudioDataBytesCapacity (block 4))"
    by (simp add: block_def)
  have h3: "unat (audio_size (chunk [1,2,3])) = length (audio (chunk [1,2,3]))"
    by (simp add: chunk_def)
  show ?thesis
    using h1 h2 h3 cursors_stay_in_bounds [OF h1, of "block 4" "chunk [1,2,3]"] by blast
qed

text \<open>
  C6, as the claim states it, fails for the write cursor: sending 16 bytes into the
  zeroed 16-byte storage leaves the write cursor equal to the capacity.
\<close>

theorem write_cursor_left_at_capacity:
  "coreaudio_output_send 16 (chunk [1,2,3,4,5,6,7,8,9,10,11,12,13,14,15,16]) (ca_data_zeroed 16)
     = Some (Inr (0, \<lparr>source_buffer = [1,2,3,4,5,6,7,8,9,10,11,12,13,14,15,16],
                      source_buffer_start = 0, source_buffer_end = 16\<rparr>))
   \<and> \<not> source_buffer_end
          \<lparr>source_buffer = [1,2,3,4,5,6,7,8,9,10,11,12,13,14,15,16],
           source_buffer_start = 0, source_buffer_end = 16\<rparr> < (16 :: uint)"
  by code_simp

text \<open>
  C7, at an input where it fails. With a 16-byte storage and 4-byte blocks: 14 bytes are
  sent into the zeroed storage and five callbacks follow with no send between them. The
  fourth block is the underrun block [13,14,0,0]; the fifth is [0,0,1,2], which is not
  silence.
\<close>

theorem silence_not_kept_after_underrun:
  "coreaudio_output_send 16 (chunk [1,2,3,4,5,6,7,8,9,10,11,12,13,14]) (ca_data_zeroed 16)
     = Some (Inr (0, \<lparr>source_buffer = [1,2,3,4,5,6,7,8,9,10,11,12,13,14,0,0],
                      source_buffer_start = 0, source_buffer_end = 14\<rparr>))
   \<and> feeds 16 (block 4) 5
        \<lparr>source_buffer = [1,2,3,4,5,6,7,8,9,10,11,12,13,14,0,0],
         source_buffer_start = 0, source_buffer_end = 14\<rparr>
     = Inr ([[1,2,3,4], [5,6,7,8], [9,10,11,12], [13,14,0,0], [0,0,1,2]],
            \<lparr>mAudioDataBytesCapacity = 4, mAudioData = [0,0,1,2], mAudioDataByteSize = 4\<rparr>,
            \<lparr>source_buffer = [1,2,3,4,5,6,7,8,9,10,11,12,13,14,0,0],
             source_buffer_start = 2, source_buffer_end = 14\<rparr>)"
  by code_simp

text \<open>
  C8. For a packet of its declared size, sent in a state with the three properties above,
  the write loop returns; the storage then holds every byte of the packet, stored in
  order from the write cursor on, going round; each iteration copied at least one byte
  and at most the capacity; the iterations together copied exactly the packet; and there
  were no more iterations than bytes.
\<close>

theorem send_loop_terminates:
  assumes "wf C ca" and "unat (audio_size data) = length (audio data)"
    and "0 < audio_size data"
  shows "\<exists>segs ca'.
      send_loop C data 0 [] ca = Some (Inr (segs, ca'))
    \<and> source_buffer ca'
        = ring_write (source_buffer ca) (unat (source_buffer_end ca)) (audio data)
    \<and> (\<forall>x\<in>set segs. 0 < x \<and> x \<le> unat C)
    \<and> sum_list segs = length (audio data)
    \<and> length segs \<le> length (audio data)"
proof -
  have len: "length (source_buffer ca) = unat C" and en: "source_buffer_end ca \<le> C"
    using assms(1) by (simp_all add: wf_def)
  have "source_buffer_start ca < C" using assms(1) by (simp add: wf_def)
  then have pos: "0 < C" by (simp add: word_less_nat_alt)
  have au: "unat (audio_size data) \<le> length (audio data)" using assms(2) by simp
  show ?thesis
    using send_loop_char [OF len pos en _ au, of 0 "[]"] assms(2) by auto
qed

theorem send_loop_terminates_witness:
  "wf 16 (ca_data_zeroed 16)
   \<and> unat (audio_size (chunk [1,2,3])) = length (audio (chunk [1,2,3]))
   \<and> 0 < audio_size (chunk [1,2,3])
   \<and> (\<exists>segs ca'.
        send_loop 16 (chunk [1,2,3]) 0 [] (ca_data_zeroed 16) = Some (Inr (segs, ca'))
      \<and> source_buffer ca'
          = ring_write (source_buffer (ca_data_zeroed 16))
              (unat (source_buffer_end (ca_data_zeroed 16))) (audio (chunk [1,2,3]))
      \<and> sum_list segs = length (audio (chunk [1,2,3]))
      \<and> length segs \<le> length (audio (chunk [1,2,3])))"
proof -
  have h1: "wf 16 (ca_data_zeroed 16)"
    by (simp add: wf_def ca_data_zeroed_def)
  have h2: "unat (audio_size (chunk [1,2,3])) = length (audio (chunk [1,2,3]))"
    by (simp add: chunk_def)
  have h3: "0 < audio_size (chunk [1,2,3])"
    by (simp add: chunk_def)
  show ?thesis
    using h1 h2 h3 send_loop_terminates [OF h1 h2 h3] by blast
qed

text \<open>
  C9. Sending a packet whose size field is 0 returns 0 and leaves the record as it was:
  the storage and both cursors are unchanged.
\<close>

theorem send_zero_length:
  "coreaudio_output_send C (data\<lparr>audio_size := 0\<rparr>) ca = Some (Inr (0, ca))"
  by (rule send_zero) simp

text \<open>
  C10. In a state with the three properties above in which the two cursors are equal,
  the callback takes the whole storage to be unread: the block it enqueues starts with
  the bytes found in the storage from the read cursor on, going round, as many as the
  block holds and at most the capacity; zero bytes are written only for what the block
  holds beyond the capacity; the read cursor advances by the number of bytes copied,
  modulo the capacity.
\<close>

theorem equal_cursors_read_as_full:
  assumes "wf C ca"
    and "source_buffer_start ca = source_buffer_end ca"
    and "length (mAudioData buffer) = unat (mAudioDataBytesCapacity buffer)"
  shows "\<exists>buffer' ca'.
      audio_queue_output_callback C buffer ca = Inr (buffer', ca')
    \<and> mAudioData buffer'
        = ring_read (source_buffer ca) (unat (source_buffer_start ca))
            (min (unat (mAudioDataBytesCapacity buffer)) (unat C))
          @ replicate (unat (mAudioDataBytesCapacity buffer) - unat C) 0
    \<and> mAudioDataByteSize buffer' = mAudioDataBytesCapacity buffer
    \<and> source_buffer ca' = source_buffer ca
    \<and> unat (source_buffer_start ca')
        = (unat (source_buffer_start ca)
           + min (unat (mAudioDataBytesCapacity buffer)) (unat C)) mod unat C"
proof -
  have "unat (source_buffer_start ca) < unat C"
    using assms(1) by (simp add: wf_def word_less_nat_alt)
  then have "copyable C ca = unat C"
    using assms(2) by (simp add: copyable_def)
  then show ?thesis
    using callback_char [OF assms(1) assms(3)] by auto
qed

theorem equal_cursors_read_as_full_witness:
  "wf 4 \<lparr>source_buffer = [1,2,3,4], source_buffer_start = 2, source_buffer_end = 2\<rparr>
   \<and> source_buffer_start
        \<lparr>source_buffer = [1,2,3,4], source_buffer_start = 2, source_buffer_end = 2\<rparr>
     = source_buffer_end
        \<lparr>source_buffer = [1,2,3,4], source_buffer_start = 2, source_buffer_end = 2\<rparr>
   \<and> length (mAudioData (block 6)) = unat (mAudioDataBytesCapacity (block 6))
   \<and> (\<exists>buffer' ca'.
        audio_queue_output_callback 4 (block 6)
          \<lparr>source_buffer = [1,2,3,4], source_buffer_start = 2, source_buffer_end = 2\<rparr>
          = Inr (buffer', ca')
      \<and> mAudioData buffer' = [3,4,1,2,0,0]
      \<and> mAudioDataByteSize buffer' = 6
      \<and> source_buffer ca' = [1,2,3,4]
      \<and> unat (source_buffer_start ca') = 2)"
proof -
  let ?ca = "\<lparr>source_buffer = [1,2,3,4], source_buffer_start = 2, source_buffer_end = 2\<rparr>"
  have h1: "wf 4 ?ca" by (simp add: wf_def)
  have h2: "source_buffer_start ?ca = source_buffer_end ?ca" by simp
  have h3: "length (mAudioData (block 6)) = unat (mAudioDataBytesCapacity (block 6))"
    by (simp add: block_def)
  have v: "ring_read [1,2,3,4] 2 4 = [3,4,1,2::byte]"
    by (simp add: ring_read_def upt_rec)
  have z: "replicate 2 (0::byte) = [0,0]"
    by (simp add: numeral_2_eq_2)
  show ?thesis
    using h1 h2 h3 equal_cursors_read_as_full [OF h1 h2 h3] v z
    by (simp add: block_def)
qed

end
